theory Spec2Isabelle
  imports Main "HOL-Library.Sublist"
begin

section \<open>Python strings\<close>

text \<open>
  A Python \<open>str\<close> is a sequence of Unicode code points. A character is modelled by its code
  point (an integer, as \<open>ord\<close> gives it) and a string by the list of its code points, so that offsets and
  lengths count what Python counts. \<open>u\<close> turns an ASCII literal into such a string.
\<close>

type_synonym uchar = int
type_synonym ustring = "uchar list"

definition u :: "string \<Rightarrow> ustring" where
  "u = map of_char"

abbreviation TAB :: uchar where "TAB \<equiv> 9"
abbreviation NL :: uchar where "NL \<equiv> 10"
abbreviation CR :: uchar where "CR \<equiv> 13"
abbreviation SP :: uchar where "SP \<equiv> 32"
abbreviation DASH :: uchar where "DASH \<equiv> 45"
abbreviation COLON :: uchar where "COLON \<equiv> 58"
abbreviation BT :: uchar where "BT \<equiv> 96"
abbreviation PIPE :: uchar where "PIPE \<equiv> 124"

text \<open>
  \<open>str.isspace\<close> on one character (CPython's \<open>Py_UNICODE_ISSPACE\<close>); the same set is what
  \<open>str.strip()\<close> removes and what \<open>\s\<close> matches in a \<open>str\<close> pattern.
\<close>

definition isspace :: "uchar \<Rightarrow> bool" where
  "isspace c \<longleftrightarrow>
     (9 \<le> c \<and> c \<le> 13) \<or> (28 \<le> c \<and> c \<le> 32) \<or> c = 133 \<or> c = 160 \<or> c = 5760 \<or>
     (8192 \<le> c \<and> c \<le> 8202) \<or> c = 8232 \<or> c = 8233 \<or> c = 8239 \<or> c = 8287 \<or> c = 12288"

text \<open>The line boundaries of \<open>str.splitlines\<close>.\<close>

definition is_linebreak :: "uchar \<Rightarrow> bool" where
  "is_linebreak c \<longleftrightarrow>
     (10 \<le> c \<and> c \<le> 13) \<or> (28 \<le> c \<and> c \<le> 30) \<or> c = 133 \<or> c = 8232 \<or> c = 8233"

text \<open>\<open>s.strip()\<close> and \<open>s.strip(chars)\<close>.\<close>

definition py_strip :: "ustring \<Rightarrow> ustring" where
  "py_strip s = rev (dropWhile isspace (rev (dropWhile isspace s)))"

definition py_strip_chars :: "ustring \<Rightarrow> ustring \<Rightarrow> ustring" where
  "py_strip_chars chars s =
     rev (dropWhile (\<lambda>c. c \<in> set chars) (rev (dropWhile (\<lambda>c. c \<in> set chars) s)))"

definition startswith :: "ustring \<Rightarrow> ustring \<Rightarrow> bool" where
  "startswith s p = prefix p s"

definition endswith :: "ustring \<Rightarrow> ustring \<Rightarrow> bool" where
  "endswith s p = suffix p s"

text \<open>
  \<open>s.split(sep)\<close> for a separator of one character: the text up to the next separator is a
  piece, and the search goes on behind the separator; there is always at least one piece.
\<close>

function py_split :: "uchar \<Rightarrow> ustring \<Rightarrow> ustring list" where
  "py_split sep s =
     (let piece = takeWhile (\<lambda>c. c \<noteq> sep) s; rest = dropWhile (\<lambda>c. c \<noteq> sep) s
      in case rest of [] \<Rightarrow> [piece] | _ # rest' \<Rightarrow> piece # py_split sep rest')"
  by pat_completeness auto
termination
proof (relation "measure (\<lambda>(sep, s). length s)")
  fix sep :: uchar and s piece rest :: ustring and c rest'
  assume "rest = dropWhile (\<lambda>c. c \<noteq> sep) s" and "rest = c # rest'"
  then have "length (c # rest') \<le> length s"
    by (metis length_dropWhile_le)
  then show "((sep, rest'), (sep, s)) \<in> measure (\<lambda>(sep, s). length s)"
    by simp
qed simp

declare py_split.simps [simp del]

text \<open>\<open>sep.join(xs)\<close>.\<close>

fun py_join :: "ustring \<Rightarrow> ustring list \<Rightarrow> ustring" where
  "py_join sep [] = []"
| "py_join sep [x] = x"
| "py_join sep (x # y # ys) = x @ sep @ py_join sep (y # ys)"

text \<open>
  \<open>s.splitlines()\<close>: a line runs up to the next line boundary, \<open>\r\n\<close> counts as one
  boundary, and no empty line is reported behind a final boundary.
\<close>

function splitlines :: "ustring \<Rightarrow> ustring list" where
  "splitlines s =
     (if s = [] then []
      else (let line = takeWhile (\<lambda>c. \<not> is_linebreak c) s;
                rest = dropWhile (\<lambda>c. \<not> is_linebreak c) s
            in line # (case rest of [] \<Rightarrow> []
                       | c # r \<Rightarrow> if c = CR \<and> r \<noteq> [] \<and> hd r = NL then splitlines (tl r)
                                  else splitlines r)))"
  by pat_completeness auto
termination
proof (relation "measure length")
  fix s line rest :: ustring and c r
  assume rest: "rest = dropWhile (\<lambda>c. \<not> is_linebreak c) s" "rest = c # r"
  then have le: "length (c # r) \<le> length s"
    by (metis length_dropWhile_le)
  then show "(r, s) \<in> measure length"
    by simp
  from le show "(tl r, s) \<in> measure length"
    by simp
qed simp

declare splitlines.simps [simp del]

text \<open>
  \<open>xs[i]\<close> for an index that is not negative: out of range raises \<open>IndexError\<close>;
  \<open>xs[i]\<close> for any integer index counts a negative index from the end.
\<close>

datatype py_error = IndexError

definition py_index :: "'a list \<Rightarrow> nat \<Rightarrow> py_error + 'a" where
  "py_index xs i = (if i < length xs then Inr (xs ! i) else Inl IndexError)"

definition py_index_int :: "'a list \<Rightarrow> int \<Rightarrow> py_error + 'a" where
  "py_index_int xs i =
     (if 0 \<le> i \<and> i < int (length xs) then Inr (xs ! nat i)
      else if i < 0 \<and> - int (length xs) \<le> i then Inr (xs ! nat (int (length xs) + i))
      else Inl IndexError)"

section \<open>The regular expressions of module \<open>re\<close> that the scanners use\<close>

text \<open>
  The two patterns of the source are built from literal text, greedy repetition of a character
  class (\<open>[..]*\<close> is \<open>Star P 0\<close>, \<open>[..]+\<close> is \<open>Star P 1\<close>), the lazy \<open>.*?\<close>, the greedy
  option \<open>(?:r)?\<close>, capturing groups, concatenation, and the anchors \<open>^\<close> and \<open>$\<close> without
  \<open>re.MULTILINE\<close>.

  The matcher backtracks as \<open>re\<close> does. A state is the offset reached, the text that remains
  and the groups captured so far. \<open>bt r st\<close> lists, in the order in which backtracking tries
  them, the states in which \<open>r\<close> can leave the matcher when it starts in \<open>st\<close>: a greedy
  repetition offers its longest run first, a lazy one its shortest, an option the match of its
  body before the empty match. The first state of the list for the whole pattern is the match
  that \<open>re\<close> reports. \<open>Bos\<close> is \<open>^\<close> (offset 0 only) and \<open>Eos\<close> is \<open>$\<close> (at the end of the
  text, or before a newline that ends the text).
\<close>

datatype regex =
    Lit ustring
  | Star "uchar \<Rightarrow> bool" nat
  | Lazy "uchar \<Rightarrow> bool"
  | Opt regex
  | Group nat regex
  | Cat regex regex
  | Bos
  | Eos

type_synonym caps = "nat \<Rightarrow> ustring option"
type_synonym mstate = "nat \<times> ustring \<times> caps"

fun bt :: "regex \<Rightarrow> mstate \<Rightarrow> mstate list" where
  "bt (Lit w) (i, s, g) =
     (if prefix w s then [(i + length w, drop (length w) s, g)] else [])"
| "bt (Star P m) (i, s, g) =
     map (\<lambda>j. (i + j, drop j s, g)) (rev [m ..< Suc (length (takeWhile P s))])"
| "bt (Lazy P) (i, s, g) =
     map (\<lambda>j. (i + j, drop j s, g)) [0 ..< Suc (length (takeWhile P s))]"
| "bt (Opt r) st = bt r st @ [st]"
| "bt (Group n r) (i, s, g) =
     map (\<lambda>(j, s', g'). (j, s', g'(n \<mapsto> take (j - i) s))) (bt r (i, s, g))"
| "bt (Cat r1 r2) st = concat (map (bt r2) (bt r1 st))"
| "bt Bos (i, s, g) = (if i = 0 then [(i, s, g)] else [])"
| "bt Eos (i, s, g) = (if s = [] \<or> s = [NL] then [(i, s, g)] else [])"

text \<open>A match object: \<open>m.start()\<close>, \<open>m.end()\<close> and \<open>m.group(n)\<close> (\<open>None\<close> for a group that
  took no part in the match).\<close>

record py_match =
  m_start :: nat
  m_end :: nat
  m_group :: caps

text \<open>\<open>pattern.match\<close> at one offset: \<open>i\<close> is the offset, \<open>s\<close> the text from there on.\<close>

definition match_at :: "regex \<Rightarrow> nat \<Rightarrow> ustring \<Rightarrow> (py_match \<times> ustring) option" where
  "match_at r i s =
     (case bt r (i, s, Map.empty) of
        [] \<Rightarrow> None
      | (j, s', g) # _ \<Rightarrow> Some (\<lparr>m_start = i, m_end = j, m_group = g\<rparr>, s'))"

text \<open>\<open>re.match(pattern, s)\<close> as a truth value.\<close>

definition re_match :: "regex \<Rightarrow> ustring \<Rightarrow> bool" where
  "re_match r s \<longleftrightarrow> match_at r 0 s \<noteq> None"

text \<open>\<open>pattern.search\<close> from offset \<open>i\<close> on: the leftmost offset at which the pattern matches.\<close>

fun re_search :: "regex \<Rightarrow> nat \<Rightarrow> ustring \<Rightarrow> (py_match \<times> ustring) option" where
  "re_search r i s =
     (case match_at r i s of
        Some m \<Rightarrow> Some m
      | None \<Rightarrow> (case s of [] \<Rightarrow> None | _ # s' \<Rightarrow> re_search r (Suc i) s'))"

declare re_search.simps [simp del]

lemma re_search_Nil [simp]:
  "re_search r i [] = (case match_at r i [] of Some m \<Rightarrow> Some m | None \<Rightarrow> None)"
  by (subst re_search.simps) (simp split: option.split)

lemma re_search_Cons [simp]:
  "re_search r i (c # cs) =
     (case match_at r i (c # cs) of Some m \<Rightarrow> Some m | None \<Rightarrow> re_search r (Suc i) cs)"
  by (subst re_search.simps) (simp split: option.split)

lemma bt_advance:
  "(j, s', g') \<in> set (bt r (i, s, g)) \<Longrightarrow> \<exists>k. j = i + k \<and> s' = drop k s \<and> k \<le> length s"
proof (induction r arbitrary: i s g j s' g')
  case (Lit w)
  then show ?case
    by (auto simp: prefix_def split: if_splits)
next
  case (Star P m)
  then obtain k where "k \<le> length (takeWhile P s)" "j = i + k" "s' = drop k s"
    by auto
  moreover have "length (takeWhile P s) \<le> length s"
    by (rule length_takeWhile_le)
  ultimately show ?case
    by (intro exI [of _ k]) simp
next
  case (Lazy P)
  then obtain k where "k \<le> length (takeWhile P s)" "j = i + k" "s' = drop k s"
    by auto
  moreover have "length (takeWhile P s) \<le> length s"
    by (rule length_takeWhile_le)
  ultimately show ?case
    by (intro exI [of _ k]) simp
next
  case (Opt r)
  then show ?case
    by (auto intro: exI [of _ 0])
next
  case (Group n r)
  then show ?case
    by auto
next
  case (Cat r1 r2)
  from Cat.prems obtain j1 s1 g1
    where 1: "(j1, s1, g1) \<in> set (bt r1 (i, s, g))"
      and 2: "(j, s', g') \<in> set (bt r2 (j1, s1, g1))"
    by auto
  from Cat.IH(1) [OF 1] obtain k1 where k1: "j1 = i + k1" "s1 = drop k1 s" "k1 \<le> length s"
    by blast
  from Cat.IH(2) [OF 2] obtain k2 where k2: "j = j1 + k2" "s' = drop k2 s1" "k2 \<le> length s1"
    by blast
  from k1 k2 have "j = i + (k1 + k2) \<and> s' = drop (k1 + k2) s \<and> k1 + k2 \<le> length s"
    by (simp add: add.commute)
  then show ?case
    by blast
next
  case Bos
  then show ?case
    by (auto intro: exI [of _ 0] split: if_splits)
next
  case Eos
  then show ?case
    by (auto intro: exI [of _ 0] split: if_splits)
qed

lemma match_at_advance:
  assumes "match_at r i s = Some (m, s')"
  shows "m_start m = i \<and> (\<exists>k. m_end m = i + k \<and> s' = drop k s \<and> k \<le> length s)"
proof -
  from assms obtain j g rest where b: "bt r (i, s, Map.empty) = (j, s', g) # rest"
    and m: "m = \<lparr>m_start = i, m_end = j, m_group = g\<rparr>"
    by (auto simp: match_at_def split: list.splits)
  from b have "(j, s', g) \<in> set (bt r (i, s, Map.empty))"
    by simp
  from bt_advance [OF this] m show ?thesis
    by simp
qed

lemma re_search_advance:
  "re_search r i s = Some (m, s') \<Longrightarrow>
     i \<le> m_start m \<and> m_start m \<le> m_end m \<and> length s' + (m_end m - i) = length s"
proof (induction s arbitrary: i)
  case Nil
  then show ?case
    by (auto split: option.splits dest: match_at_advance)
next
  case (Cons c cs)
  show ?case
  proof (cases "match_at r i (c # cs)")
    case None
    with Cons.prems have "re_search r (Suc i) cs = Some (m, s')"
      by simp
    from Cons.IH [OF this] show ?thesis
      by auto
  next
    case (Some a)
    with Cons.prems have "match_at r i (c # cs) = Some (m, s')"
      by simp
    from match_at_advance [OF this] show ?thesis
      by auto
  qed
qed

text \<open>
  \<open>pattern.finditer\<close>: the matches from left to right, each search starting where the match
  before it ended. Behind an empty match the search moves on by one character (the fence
  pattern holds seven literal characters and never matches the empty string).
\<close>

function finditer :: "regex \<Rightarrow> nat \<Rightarrow> ustring \<Rightarrow> py_match list" where
  "finditer r i s =
     (case re_search r i s of
        None \<Rightarrow> []
      | Some (m, s') \<Rightarrow>
          m # (if m_start m < m_end m then finditer r (m_end m) s'
               else (case s' of [] \<Rightarrow> [] | _ # s'' \<Rightarrow> finditer r (Suc (m_end m)) s'')))"
  by pat_completeness auto
termination
proof (relation "measure (\<lambda>(r, i, s). length s)")
  fix r i s x2 m s'
  assume "re_search r i s = Some x2" "(m, s') = x2" "m_start m < m_end m"
  then have "re_search r i s = Some (m, s')" and lt: "m_start m < m_end m"
    by simp_all
  from re_search_advance [OF this(1)] lt
  show "((r, m_end m, s'), (r, i, s)) \<in> measure (\<lambda>(r, i, s). length s)"
    by auto
next
  fix r i s x2 m s' c s''
  assume "re_search r i s = Some x2" "(m, s') = x2" "s' = c # s''"
  then have "re_search r i s = Some (m, c # s'')"
    by simp
  from re_search_advance [OF this]
  show "((r, Suc (m_end m), s''), (r, i, s)) \<in> measure (\<lambda>(r, i, s). length s)"
    by auto
qed simp

declare finditer.simps [simp del]

section \<open>The fence scanner (\<open>extractor.py\<close>)\<close>

text \<open>The character class \<open>[a-zA-Z0-9_+#.-]\<close> of the language tag.\<close>

definition is_tag_char :: "uchar \<Rightarrow> bool" where
  "is_tag_char c \<longleftrightarrow>
     (of_char CHR ''a'' \<le> c \<and> c \<le> of_char CHR ''z'') \<or>
     (of_char CHR ''A'' \<le> c \<and> c \<le> of_char CHR ''Z'') \<or>
     (of_char CHR ''0'' \<le> c \<and> c \<le> of_char CHR ''9'') \<or>
     c \<in> set (u ''_+#.-'')"

text \<open>
  \<open>fence_re\<close>, compiled with \<open>re.DOTALL\<close> (the dot of the body matches every character):
  three backticks, \<open>[ \t]*\<close>, group 1 \<open>([a-zA-Z0-9_+#.-]*)\<close>, the option \<open>(?::([^\n]+))?\<close>
  with group 2, a newline, group 3 \<open>(.*?)\<close> and three backticks.
\<close>

definition fence_re :: regex where
  "fence_re =
     Cat (Lit (u ''```''))
    (Cat (Star (\<lambda>c. c = SP \<or> c = TAB) 0)
    (Cat (Group 1 (Star is_tag_char 0))
    (Cat (Opt (Cat (Lit [COLON]) (Group 2 (Star (\<lambda>c. c \<noteq> NL) 1))))
    (Cat (Lit [NL])
    (Cat (Group 3 (Lazy (\<lambda>c. True)))
         (Lit (u ''```'')))))))"

text \<open>
  The index of line starts: \<open>line_starts\<close> begins as \<open>[0]\<close>, and the loop over
  \<open>enumerate(md_text)\<close> appends \<open>i + 1\<close> for every newline at offset \<open>i\<close>.
\<close>

definition line_starts :: "ustring \<Rightarrow> int list" where
  "line_starts md_text =
     fold (\<lambda>(i, ch) ls. if ch = NL then ls @ [int i + 1] else ls) (enumerate 0 md_text) [0]"

text \<open>
  \<open>offset_to_line\<close>: the \<open>while lo < hi\<close> loop of the binary search, then \<open>lo + 1\<close>. The
  indices are Python integers, \<open>//\<close> is floor division, and \<open>line_starts[mid]\<close> may raise.
\<close>

function offset_to_line_loop :: "int list \<Rightarrow> int \<Rightarrow> int \<Rightarrow> int \<Rightarrow> py_error + int" where
  "offset_to_line_loop ls offset lo hi =
     (if lo < hi then
        (let mid = (lo + hi + 1) div 2
         in case py_index_int ls mid of
              Inl e \<Rightarrow> Inl e
            | Inr v \<Rightarrow> if v \<le> offset then offset_to_line_loop ls offset mid hi
                       else offset_to_line_loop ls offset lo (mid - 1))
      else Inr lo)"
  by pat_completeness auto
termination
  by (relation "measure (\<lambda>(ls, offset, lo, hi). nat (hi - lo))") auto

declare offset_to_line_loop.simps [simp del]

definition offset_to_line :: "int list \<Rightarrow> int \<Rightarrow> py_error + int" where
  "offset_to_line ls offset =
     (case offset_to_line_loop ls offset 0 (int (length ls) - 1) of
        Inl e \<Rightarrow> Inl e
      | Inr lo \<Rightarrow> Inr (lo + 1))"

text \<open>
  A reported block is the tuple \<open>(lang, hint, code, line_no)\<close>; \<open>code\<close> is \<open>m.group(3)\<close>
  as it comes, which Python types as \<open>str\<close> or \<open>None\<close>.
\<close>

type_synonym code_block = "ustring \<times> ustring \<times> ustring option \<times> int"

text \<open>\<open>g.strip() if g else ""\<close>: \<open>None\<close> and the empty string are both false.\<close>

definition strip_or_empty :: "ustring option \<Rightarrow> ustring" where
  "strip_or_empty g = (case g of None \<Rightarrow> [] | Some s \<Rightarrow> if s \<noteq> [] then py_strip s else [])"

text \<open>The \<open>for m in fence_re.finditer(md_text)\<close> loop, \<open>result\<close> passed along.\<close>

fun collect_blocks :: "int list \<Rightarrow> py_match list \<Rightarrow> code_block list \<Rightarrow> py_error + code_block list" where
  "collect_blocks ls [] result = Inr result"
| "collect_blocks ls (m # ms) result =
     (let lang = strip_or_empty (m_group m 1);
          hint = strip_or_empty (m_group m 2);
          code = m_group m 3
      in case offset_to_line ls (int (m_start m)) of
           Inl e \<Rightarrow> Inl e
         | Inr line_no \<Rightarrow> collect_blocks ls ms (result @ [(lang, hint, code, line_no)]))"

definition extract_code_blocks :: "ustring \<Rightarrow> py_error + code_block list" where
  "extract_code_blocks md_text =
     collect_blocks (line_starts md_text) (finditer fence_re 0 md_text) []"

section \<open>The table scanner (\<open>tables.py\<close>)\<close>

text \<open>
  The separator pattern \<open>^\s*\|?[\s\-|:]+\|?\s*$\<close>, which \<open>re.match\<close> applies to a line
  of a run.
\<close>

definition sep_re :: regex where
  "sep_re =
     Cat Bos
    (Cat (Star isspace 0)
    (Cat (Opt (Lit [PIPE]))
    (Cat (Star (\<lambda>c. isspace c \<or> c = DASH \<or> c = PIPE \<or> c = COLON) 1)
    (Cat (Opt (Lit [PIPE]))
    (Cat (Star isspace 0)
         Eos)))))"

text \<open>A grid is a list of rows, a row a list of cells.\<close>

type_synonym grid = "ustring list list"

text \<open>
  The comprehension that turns the lines \<open>raw\<close> of a run into rows:
  \<open>[[c.strip() for c in r.strip("|").split("|")] for r in raw if not re.match(.., r)]\<close>.
  \<open>row_cells\<close> is its inner comprehension, the cells of one line.
\<close>

definition row_cells :: "ustring \<Rightarrow> ustring list" where
  "row_cells r = [py_strip c. c \<leftarrow> py_split PIPE (py_strip_chars [PIPE] r)]"

definition table_rows :: "ustring list \<Rightarrow> grid" where
  "table_rows raw = [row_cells r. r \<leftarrow> raw, \<not> re_match sep_re r]"

text \<open>
  The inner \<open>while i < len(lines)\<close> loop: it collects the trimmed lines of a run in \<open>raw\<close>
  and leaves by \<open>break\<close> at the first line that is no candidate; it hands back \<open>i\<close> and
  \<open>raw\<close>.
\<close>

function run_loop :: "ustring list \<Rightarrow> nat \<Rightarrow> ustring list \<Rightarrow> py_error + (nat \<times> ustring list)" where
  "run_loop lines i raw =
     (if i < length lines then
        (case py_index lines i of
           Inl e \<Rightarrow> Inl e
         | Inr x \<Rightarrow>
             (let l = py_strip x
              in if \<not> (startswith l [PIPE] \<and> endswith l [PIPE]) then Inr (i, raw)
                 else run_loop lines (i + 1) (raw @ [l])))
      else Inr (i, raw))"
  by pat_completeness auto
termination
  by (relation "measure (\<lambda>(lines, i, raw). length lines - i)") auto

declare run_loop.simps [simp del]

lemma run_loop_mono:
  "run_loop lines i raw = Inr (i', raw') \<Longrightarrow> i \<le> i'"
proof (induction lines i raw rule: run_loop.induct)
  case (1 lines i raw)
  show ?case
  proof (cases "i < length lines")
    case False
    with "1.prems" show ?thesis
      by (simp add: run_loop.simps [of lines i raw])
  next
    case True
    then have ix: "py_index lines i = Inr (lines ! i)"
      by (simp add: py_index_def)
    show ?thesis
    proof (cases "startswith (py_strip (lines ! i)) [PIPE] \<and> endswith (py_strip (lines ! i)) [PIPE]")
      case False
      with True ix "1.prems" show ?thesis
        by (auto simp: run_loop.simps [of lines i raw])
    next
      case cand: True
      with True ix "1.prems"
      have "run_loop lines (i + 1) (raw @ [py_strip (lines ! i)]) = Inr (i', raw')"
        by (simp add: run_loop.simps [of lines i raw])
      from "1.IH" [OF True ix refl _ this] cand show ?thesis
        by simp
    qed
  qed
qed

lemma run_loop_progress:
  assumes "i < length lines" and "py_index lines i = Inr x"
    and "startswith (py_strip x) [PIPE] \<and> endswith (py_strip x) [PIPE]"
    and "run_loop lines i raw = Inr (i', raw')"
  shows "i < i'"
proof -
  from assms have "run_loop lines (i + 1) (raw @ [py_strip x]) = Inr (i', raw')"
    by (simp add: run_loop.simps [of lines i raw])
  from run_loop_mono [OF this] show ?thesis
    by simp
qed

text \<open>
  The outer \<open>while i < len(lines)\<close> loop with \<open>tables\<close> passed along: at a candidate line
  the inner loop runs from the same \<open>i\<close>, and the rows that survive the separator filter are
  appended if there are any.
\<close>

function scan_loop :: "ustring list \<Rightarrow> nat \<Rightarrow> grid list \<Rightarrow> py_error + grid list" where
  "scan_loop lines i tables =
     (if i < length lines then
        (case py_index lines i of
           Inl e \<Rightarrow> Inl e
         | Inr x \<Rightarrow>
             (let line = py_strip x
              in if startswith line [PIPE] \<and> endswith line [PIPE] then
                   (case run_loop lines i [] of
                      Inl e \<Rightarrow> Inl e
                    | Inr (i', raw) \<Rightarrow>
                        (let rows = table_rows raw
                         in scan_loop lines i' (if rows \<noteq> [] then tables @ [rows] else tables)))
                 else scan_loop lines (i + 1) tables))
      else Inr tables)"
  by pat_completeness auto
termination
proof (relation "measure (\<lambda>(lines, i, tables). length lines - i)")
  fix lines :: "ustring list" and i :: nat and tables :: "grid list"
    and x line p i' raw rows
  assume "i < length lines" "py_index lines i = Inr x" "line = py_strip x"
    "startswith line [PIPE] \<and> endswith line [PIPE]"
    "run_loop lines i [] = Inr p" "(i', raw) = p"
  then have "i < i'"
    using run_loop_progress [of i lines x "[]" i' raw] by simp
  with \<open>i < length lines\<close>
  show "((lines, i', if rows \<noteq> [] then tables @ [rows] else tables), (lines, i, tables))
          \<in> measure (\<lambda>(lines, i, tables). length lines - i)"
    by simp
qed auto

declare scan_loop.simps [simp del]

definition extract_tables :: "ustring \<Rightarrow> py_error + grid list" where
  "extract_tables md_text = scan_loop (splitlines md_text) 0 []"

section \<open>Notions used to state and prove the properties\<close>

text \<open>
  None of the definitions of this section is part of the program. \<open>candidate\<close> is the test
  that both loops of the table scanner apply to a line (trimmed, it starts and ends with
  \<open>|\<close>), and \<open>grid_of_run\<close> is what the outer loop appends for the lines of one run.
  \<open>scan_lines\<close> restates the two loops over the lines that remain (\<open>lines[i:]\<close>), a run at
  once; \<open>scan_loop_eq\<close> shows that the loops of the source compute exactly this.
\<close>

definition candidate :: "ustring \<Rightarrow> bool" where
  "candidate l \<longleftrightarrow> startswith (py_strip l) [PIPE] \<and> endswith (py_strip l) [PIPE]"

definition grid_of_run :: "ustring list \<Rightarrow> grid list" where
  "grid_of_run run = (let rows = table_rows (map py_strip run) in if rows \<noteq> [] then [rows] else [])"

function scan_lines :: "ustring list \<Rightarrow> grid list" where
  "scan_lines [] = []"
| "scan_lines (l # ls) =
     (if candidate l then grid_of_run (l # takeWhile candidate ls) @ scan_lines (dropWhile candidate ls)
      else scan_lines ls)"
  by pat_completeness auto
termination
  by (relation "measure length") (auto simp: length_dropWhile_le less_Suc_eq_le)

text \<open>
  The fence pattern is taken apart from the right: \<open>re_body\<close> is the body with the closing
  backticks, \<open>re_nl\<close> the newline before it, \<open>re_hint\<close> the optional hint, \<open>re_tag\<close> the
  language tag and \<open>re_ws\<close> the blanks behind the opening backticks.
\<close>

abbreviation ticks :: ustring where "ticks \<equiv> [BT, BT, BT]"

definition re_body :: regex where
  "re_body = Cat (Group 3 (Lazy (\<lambda>c. True))) (Lit ticks)"

definition re_nl :: regex where
  "re_nl = Cat (Lit [NL]) re_body"

definition re_hint :: regex where
  "re_hint = Cat (Opt (Cat (Lit [COLON]) (Group 2 (Star (\<lambda>c. c \<noteq> NL) 1)))) re_nl"

definition re_tag :: regex where
  "re_tag = Cat (Group 1 (Star is_tag_char 0)) re_hint"

definition re_ws :: regex where
  "re_ws = Cat (Star (\<lambda>c. c = SP \<or> c = TAB) 0) re_tag"

text \<open>
  \<open>fence_header\<close> reads the opening line behind the three backticks deterministically: the
  tag, the hint if there is one, the number of characters read and the text behind the newline.
  \<open>bt_re_ws_header\<close> shows that the backtracking matcher reads the same.
\<close>

definition fence_header :: "ustring \<Rightarrow> (ustring \<times> ustring option \<times> nat \<times> ustring) option" where
  "fence_header s =
     (let s1 = dropWhile (\<lambda>c. c = SP \<or> c = TAB) s;
          tag = takeWhile is_tag_char s1;
          n = length (takeWhile (\<lambda>c. c = SP \<or> c = TAB) s) + length tag
      in case dropWhile is_tag_char s1 of
           [] \<Rightarrow> None
         | c # s3 \<Rightarrow>
             if c = NL then Some (tag, None, n + 1, s3)
             else if c = COLON then
               (case dropWhile (\<lambda>c. c \<noteq> NL) s3 of
                  [] \<Rightarrow> None
                | d # rest \<Rightarrow>
                    if takeWhile (\<lambda>c. c \<noteq> NL) s3 \<noteq> []
                    then Some (tag, Some (takeWhile (\<lambda>c. c \<noteq> NL) s3),
                               n + 1 + length (takeWhile (\<lambda>c. c \<noteq> NL) s3) + 1, rest)
                    else None)
             else None)"

definition header_groups :: "caps \<Rightarrow> ustring \<Rightarrow> ustring option \<Rightarrow> caps" where
  "header_groups g tag hint = (case hint of None \<Rightarrow> g(1 \<mapsto> tag) | Some h \<Rightarrow> g(1 \<mapsto> tag, 2 \<mapsto> h))"

text \<open>
  \<open>contains_ticks s\<close>: three backticks in a row occur somewhere in \<open>s\<close>;
  \<open>before_ticks s\<close>: the text of \<open>s\<close> before their first occurrence.
\<close>

fun contains_ticks :: "ustring \<Rightarrow> bool" where
  "contains_ticks [] = False"
| "contains_ticks (c # cs) = (prefix ticks (c # cs) \<or> contains_ticks cs)"

fun before_ticks :: "ustring \<Rightarrow> ustring" where
  "before_ticks [] = []"
| "before_ticks (c # cs) = (if prefix ticks (c # cs) then [] else c # before_ticks cs)"

text \<open>The tuple that the loop of \<open>extract_code_blocks\<close> appends for a match.\<close>

definition block_of :: "ustring \<Rightarrow> py_match \<Rightarrow> code_block" where
  "block_of md_text m =
     (strip_or_empty (m_group m 1), strip_or_empty (m_group m 2), m_group m 3,
      int (length (filter (\<lambda>c. c = NL) (take (m_start m) md_text))) + 1)"

text \<open>
  The separator test in the words of the specification: a line is separator-like when it
  consists only of whitespace, \<open>-\<close>, \<open>|\<close> and \<open>:\<close>. \<open>re_match_sep_re\<close> shows that on a
  non-empty line the pattern of the source decides exactly this.
\<close>

definition separator_like :: "ustring \<Rightarrow> bool" where
  "separator_like r \<longleftrightarrow> (\<forall>c\<in>set r. isspace c \<or> c = DASH \<or> c = PIPE \<or> c = COLON)"

abbreviation sep_char :: "uchar \<Rightarrow> bool" where
  "sep_char c \<equiv> isspace c \<or> c = DASH \<or> c = PIPE \<or> c = COLON"

text \<open>
  The cell split in the words of the specification: \<open>strip_one_pipe\<close> removes exactly one
  leading and one trailing \<open>|\<close>, \<open>cells_strip_one\<close> splits what is left and trims the cells.
  \<open>strip_all_pipes\<close> removes one \<open>|\<close> at an end as long as there is one, and
  \<open>single_edge_pipes\<close> holds for a line with exactly one \<open>|\<close> at each end.
\<close>

definition strip_one_pipe :: "ustring \<Rightarrow> ustring" where
  "strip_one_pipe r =
     (let a = (if r \<noteq> [] \<and> hd r = PIPE then tl r else r)
      in if a \<noteq> [] \<and> last a = PIPE then butlast a else a)"

definition cells_strip_one :: "ustring \<Rightarrow> ustring list" where
  "cells_strip_one r = map py_strip (py_split PIPE (strip_one_pipe r))"

function strip_all_pipes :: "ustring \<Rightarrow> ustring" where
  "strip_all_pipes r =
     (if r \<noteq> [] \<and> hd r = PIPE then strip_all_pipes (tl r)
      else if r \<noteq> [] \<and> last r = PIPE then strip_all_pipes (butlast r)
      else r)"
  by pat_completeness auto
termination
  by (relation "measure length") (auto simp: less_Suc_eq_le intro: diff_less)

declare strip_all_pipes.simps [simp del]

definition single_edge_pipes :: "ustring \<Rightarrow> bool" where
  "single_edge_pipes r \<longleftrightarrow>
     2 \<le> length r \<and> hd r = PIPE \<and> last r = PIPE \<and>
     (let core = butlast (tl r) in core = [] \<or> (hd core \<noteq> PIPE \<and> last core \<noteq> PIPE))"

text \<open>
  \<open>rejoin\<close> is \<open>"|" + " | ".join(row) + "|"\<close>; two strings are equal up to whitespace when
  they are equal once \<open>squash\<close> has removed their whitespace.
\<close>

definition squash :: "ustring \<Rightarrow> ustring" where
  "squash s = filter (\<lambda>c. \<not> isspace c) s"

definition rejoin :: "ustring list \<Rightarrow> ustring" where
  "rejoin row = [PIPE] @ py_join (u '' | '') row @ [PIPE]"

section \<open>The loops of the table scanner as a recursion over the remaining lines\<close>

lemma run_loop_eq:
  "i \<le> length lines \<Longrightarrow>
   run_loop lines i raw =
     Inr (i + length (takeWhile candidate (drop i lines)),
          raw @ map py_strip (takeWhile candidate (drop i lines)))"
proof (induction lines i raw rule: run_loop.induct)
  case (1 lines i raw)
  show ?case
  proof (cases "i < length lines")
    case False
    then have "run_loop lines i raw = Inr (i, raw)"
      by (subst run_loop.simps) simp
    with False "1.prems" show ?thesis
      by simp
  next
    case True
    then have ix: "py_index lines i = Inr (lines ! i)"
      by (simp add: py_index_def)
    from True have d: "drop i lines = lines ! i # drop (Suc i) lines"
      by (simp add: Cons_nth_drop_Suc)
    show ?thesis
    proof (cases "candidate (lines ! i)")
      case False
      then have nc: "\<not> (startswith (py_strip (lines ! i)) [PIPE] \<and> endswith (py_strip (lines ! i)) [PIPE])"
        by (simp add: candidate_def)
      have "run_loop lines i raw = Inr (i, raw)"
        by (subst run_loop.simps) (simp add: True ix nc Let_def)
      then show ?thesis
        using d False by simp
    next
      case cand: True
      then have c: "startswith (py_strip (lines ! i)) [PIPE] \<and> endswith (py_strip (lines ! i)) [PIPE]"
        by (simp add: candidate_def)
      from True have "i + 1 \<le> length lines"
        by simp
      from "1.IH" [OF True ix refl _ this] c
      have "run_loop lines (i + 1) (raw @ [py_strip (lines ! i)]) =
              Inr (i + 1 + length (takeWhile candidate (drop (i + 1) lines)),
                   (raw @ [py_strip (lines ! i)]) @ map py_strip (takeWhile candidate (drop (i + 1) lines)))"
        by simp
      moreover have "run_loop lines i raw = run_loop lines (i + 1) (raw @ [py_strip (lines ! i)])"
        by (subst run_loop.simps) (simp add: True ix c Let_def)
      ultimately show ?thesis
        using d cand by simp
    qed
  qed
qed

lemma scan_loop_eq:
  "i \<le> length lines \<Longrightarrow> scan_loop lines i tables = Inr (tables @ scan_lines (drop i lines))"
proof (induction lines i tables rule: scan_loop.induct)
  case (1 lines i tables)
  show ?case
  proof (cases "i < length lines")
    case False
    then have "scan_loop lines i tables = Inr tables"
      by (subst scan_loop.simps) simp
    with False "1.prems" show ?thesis
      by simp
  next
    case True
    then have ix: "py_index lines i = Inr (lines ! i)"
      by (simp add: py_index_def)
    from True have d: "drop i lines = lines ! i # drop (Suc i) lines"
      by (simp add: Cons_nth_drop_Suc)
    show ?thesis
    proof (cases "candidate (lines ! i)")
      case False
      then have nc: "\<not> (startswith (py_strip (lines ! i)) [PIPE] \<and> endswith (py_strip (lines ! i)) [PIPE])"
        by (simp add: candidate_def)
      from True have "i + 1 \<le> length lines"
        by simp
      from "1.IH"(2) [OF True ix refl nc this]
      have "scan_loop lines (i + 1) tables = Inr (tables @ scan_lines (drop (i + 1) lines))" .
      moreover have "scan_loop lines i tables = scan_loop lines (i + 1) tables"
        by (subst scan_loop.simps) (simp add: True ix nc Let_def)
      ultimately show ?thesis
        using d False by simp
    next
      case cand: True
      then have c: "startswith (py_strip (lines ! i)) [PIPE] \<and> endswith (py_strip (lines ! i)) [PIPE]"
        by (simp add: candidate_def)
      let ?run = "takeWhile candidate (drop i lines)"
      let ?i' = "i + length ?run"
      let ?raw = "map py_strip ?run"
      have rl: "run_loop lines i [] = Inr (?i', ?raw)"
        using run_loop_eq [of i lines "[]"] True by simp
      have le: "?i' \<le> length lines"
        using length_takeWhile_le [of candidate "drop i lines"] True by simp
      have run: "?run = lines ! i # takeWhile candidate (drop (Suc i) lines)"
        using d cand by simp
      have dr: "drop ?i' lines = dropWhile candidate (drop (Suc i) lines)"
      proof -
        have "drop ?i' lines = drop (length ?run) (drop i lines)"
          by (simp add: add.commute)
        also have "\<dots> = dropWhile candidate (drop i lines)"
          by (simp add: dropWhile_eq_drop)
        also have "\<dots> = dropWhile candidate (drop (Suc i) lines)"
          using d cand by simp
        finally show ?thesis .
      qed
      let ?rows = "table_rows ?raw"
      from "1.IH"(1) [OF True ix refl c rl refl refl le]
      have "scan_loop lines ?i' (if ?rows \<noteq> [] then tables @ [?rows] else tables) =
              Inr ((if ?rows \<noteq> [] then tables @ [?rows] else tables) @ scan_lines (drop ?i' lines))"
        by simp
      moreover have "scan_loop lines i tables =
          scan_loop lines ?i' (if ?rows \<noteq> [] then tables @ [?rows] else tables)"
        by (subst scan_loop.simps) (simp add: True ix c rl Let_def)
      moreover have "scan_lines (drop i lines) = grid_of_run ?run @ scan_lines (drop ?i' lines)"
        using d cand run dr by simp
      ultimately show ?thesis
        by (simp add: grid_of_run_def Let_def)
    qed
  qed
qed

lemma extract_tables_eq: "extract_tables md_text = Inr (scan_lines (splitlines md_text))"
  using scan_loop_eq [of 0 "splitlines md_text" "[]"] by (simp add: extract_tables_def)

lemma scan_loop_0: "scan_loop lines 0 [] = Inr (scan_lines lines)"
  using scan_loop_eq [of 0 lines "[]"] by simp

lemma takeWhile_all_append:
  "\<forall>x\<in>set xs. P x \<Longrightarrow> ys = [] \<or> \<not> P (hd ys) \<Longrightarrow> takeWhile P (xs @ ys) = xs"
  by (induction xs) (auto simp: takeWhile_eq_Nil_iff neq_Nil_conv)

lemma dropWhile_all_append:
  "\<forall>x\<in>set xs. P x \<Longrightarrow> ys = [] \<or> \<not> P (hd ys) \<Longrightarrow> dropWhile P (xs @ ys) = ys"
  by (induction xs) (auto simp: dropWhile_eq_self_iff)

lemma scan_lines_run:
  assumes "R \<noteq> []" and "\<forall>l\<in>set R. candidate l" and "B = [] \<or> \<not> candidate (hd B)"
  shows "scan_lines (R @ B) = grid_of_run R @ scan_lines B"
proof -
  from assms(1) obtain r R' where R: "R = r # R'"
    by (cases R) auto
  with assms(2) have r: "candidate r" and R': "\<forall>l\<in>set R'. candidate l"
    by auto
  from R' assms(3) have "takeWhile candidate (R' @ B) = R'"
    by (rule takeWhile_all_append)
  moreover from R' assms(3) have "dropWhile candidate (R' @ B) = B"
    by (rule dropWhile_all_append)
  ultimately show ?thesis
    using R r
    by simp
qed

lemma scan_lines_append:
  "A = [] \<or> \<not> candidate (last A) \<Longrightarrow> scan_lines (A @ C) = scan_lines A @ scan_lines C"
proof (induction A rule: scan_lines.induct)
  case 1
  then show ?case
    by simp
next
  case (2 l ls)
  show ?case
  proof (cases "candidate l")
    case False
    with "2.prems" have "ls = [] \<or> \<not> candidate (last ls)"
      by (auto split: if_splits)
    from "2.IH"(2) [OF False this] False show ?thesis
      by simp
  next
    case True
    with "2.prems" have ls: "ls \<noteq> []" and last: "\<not> candidate (last ls)"
      by (auto split: if_splits)
    then have x: "last ls \<in> set ls"
      by simp
    from x last have tw: "takeWhile candidate (ls @ C) = takeWhile candidate ls"
      by (rule takeWhile_append1)
    from x last have dw: "dropWhile candidate (ls @ C) = dropWhile candidate ls @ C"
      by (rule dropWhile_append1)
    from x last have ne: "dropWhile candidate ls \<noteq> []"
      by (auto simp: dropWhile_eq_Nil_conv)
    then have "last (dropWhile candidate ls) = last ls"
      by (metis last_appendR takeWhile_dropWhile_id)
    with last ne have "dropWhile candidate ls = [] \<or> \<not> candidate (last (dropWhile candidate ls))"
      by simp
    from "2.IH"(1) [OF True this] True tw dw show ?thesis
      by simp
  qed
qed

lemma scan_lines_decompose:
  assumes "R \<noteq> []" and "\<forall>l\<in>set R. candidate l"
    and "A = [] \<or> \<not> candidate (last A)" and "B = [] \<or> \<not> candidate (hd B)"
  shows "scan_lines (A @ R @ B) = scan_lines A @ grid_of_run R @ scan_lines B"
  using scan_lines_append [OF assms(3), of "R @ B"] scan_lines_run [OF assms(1,2,4)] by simp

lemma py_split_nonempty: "py_split sep s \<noteq> []"
  by (subst py_split.simps) (simp add: Let_def split: list.splits)

lemma row_cells_nonempty: "row_cells r \<noteq> []"
  by (simp add: row_cells_def py_split_nonempty)

lemma table_rows_nonempty: "row \<in> set (table_rows raw) \<Longrightarrow> row \<noteq> []"
  by (auto simp: table_rows_def row_cells_nonempty)

lemma grid_of_run_nonempty: "g \<in> set (grid_of_run run) \<Longrightarrow> g \<noteq> [] \<and> (\<forall>row\<in>set g. row \<noteq> [])"
  by (auto simp: grid_of_run_def Let_def table_rows_nonempty split: if_splits)

lemma scan_lines_nonempty: "g \<in> set (scan_lines ls) \<Longrightarrow> g \<noteq> [] \<and> (\<forall>row\<in>set g. row \<noteq> [])"
proof (induction ls rule: scan_lines.induct)
  case 1
  then show ?case
    by simp
next
  case (2 l ls)
  then show ?case
    using grid_of_run_nonempty by (auto split: if_splits)
qed

section \<open>Properties of the table scanner\<close>

text \<open>
  C10: for every input text, every grid that \<open>extract_tables\<close> returns has at least one row,
  and every row of every returned grid has at least one cell.
\<close>

theorem grids_and_rows_nonempty:
  assumes "extract_tables md_text = Inr tables" and "g \<in> set tables"
  shows "g \<noteq> [] \<and> (\<forall>row\<in>set g. row \<noteq> [])"
  using assms scan_lines_nonempty [of g "splitlines md_text"] by (simp add: extract_tables_eq)

theorem grids_and_rows_nonempty_witness:
  "extract_tables (u ''| A | B |\<newline>|---|---|\<newline>| 1 | 2 |'') =
     Inr [[[u ''A'', u ''B''], [u ''1'', u ''2'']]]
   \<and> [[u ''A'', u ''B''], [u ''1'', u ''2'']] \<noteq> []
   \<and> [u ''A'', u ''B''] \<noteq> [] \<and> [u ''1'', u ''2''] \<noteq> []"
proof -
  have e: "extract_tables (u ''| A | B |\<newline>|---|---|\<newline>| 1 | 2 |'') =
             Inr [[[u ''A'', u ''B''], [u ''1'', u ''2'']]]"
    by code_simp
  from grids_and_rows_nonempty [OF e, of "[[u ''A'', u ''B''], [u ''1'', u ''2'']]"] e
  show ?thesis
    by simp
qed

section \<open>The line index and its binary search\<close>

lemma fold_line_starts:
  "fold (\<lambda>(i, ch) ls. if ch = NL then ls @ [int i + 1] else ls) (enumerate n xs) acc =
     acc @ map (\<lambda>i. int i + 1) (filter (\<lambda>i. xs ! (i - n) = NL) [n ..< n + length xs])"
proof (induction xs arbitrary: n acc)
  case Nil
  then show ?case
    by simp
next
  case (Cons x xs)
  let ?P = "\<lambda>i. (x # xs) ! (i - n) = NL"
  let ?Q = "\<lambda>i. xs ! (i - Suc n) = NL"
  have a: "[n ..< n + length (x # xs)] = n # [Suc n ..< Suc n + length xs]"
    by (subst upt_rec) simp
  have b: "filter ?P [Suc n ..< Suc n + length xs] = filter ?Q [Suc n ..< Suc n + length xs]"
  proof (rule filter_cong [OF refl])
    fix i
    assume "i \<in> set [Suc n ..< Suc n + length xs]"
    then have "i - n = Suc (i - Suc n)"
      by auto
    then show "((x # xs) ! (i - n) = NL) = (xs ! (i - Suc n) = NL)"
      by simp
  qed
  have "filter ?P [n ..< n + length (x # xs)] = filter ?P (n # [Suc n ..< Suc n + length xs])"
    by (simp only: a)
  also have "\<dots> = (if x = NL then [n] else []) @ filter ?P [Suc n ..< Suc n + length xs]"
    by (simp del: upt_Suc)
  also have "\<dots> = (if x = NL then [n] else []) @ filter ?Q [Suc n ..< Suc n + length xs]"
    by (simp only: b)
  finally have f: "filter ?P [n ..< n + length (x # xs)] =
      (if x = NL then [n] else []) @ filter ?Q [Suc n ..< Suc n + length xs]" .
  have "fold (\<lambda>(i, ch) ls. if ch = NL then ls @ [int i + 1] else ls) (enumerate n (x # xs)) acc =
        fold (\<lambda>(i, ch) ls. if ch = NL then ls @ [int i + 1] else ls) (enumerate (Suc n) xs)
          (if x = NL then acc @ [int n + 1] else acc)"
    by simp
  also have "\<dots> = (if x = NL then acc @ [int n + 1] else acc) @
      map (\<lambda>i. int i + 1) (filter ?Q [Suc n ..< Suc n + length xs])"
    by (rule Cons.IH)
  also have "\<dots> = acc @ map (\<lambda>i. int i + 1) (filter ?P [n ..< n + length (x # xs)])"
    unfolding f by simp
  finally show ?case .
qed

lemma line_starts_eq:
  "line_starts t = 0 # map (\<lambda>i. int i + 1) (filter (\<lambda>i. t ! i = NL) [0 ..< length t])"
  using fold_line_starts [of 0 t "[0]"] by (simp add: line_starts_def)

lemma line_starts_sorted: "sorted_wrt (<) (line_starts t)"
proof -
  have "sorted_wrt (<) (filter (\<lambda>i. t ! i = NL) [0 ..< length t])"
    by (rule sorted_wrt_filter) simp
  then have "sorted_wrt (\<lambda>x y. int x + 1 < int y + 1) (filter (\<lambda>i. t ! i = NL) [0 ..< length t])"
    by (rule sorted_wrt_mono_rel [rotated]) simp
  then have "sorted_wrt (<) (map (\<lambda>i. int i + 1) (filter (\<lambda>i. t ! i = NL) [0 ..< length t]))"
    unfolding sorted_wrt_map .
  then show ?thesis
    by (auto simp: line_starts_eq)
qed

lemma line_starts_set:
  "set (line_starts t) = insert 0 {int i + 1 | i. i < length t \<and> t ! i = NL}"
  by (auto simp: line_starts_eq)

lemma offset_to_line_loop_correct:
  assumes "sorted_wrt (<) ls" and "0 \<le> lo" and "lo \<le> hi" and "hi < int (length ls)"
    and "ls ! nat lo \<le> offset" and "\<forall>j. nat hi < j \<and> j < length ls \<longrightarrow> offset < ls ! j"
  shows "\<exists>k. offset_to_line_loop ls offset lo hi = Inr (int k) \<and> k < length ls \<and>
             ls ! k \<le> offset \<and> (\<forall>j. k < j \<and> j < length ls \<longrightarrow> offset < ls ! j)"
  using assms
proof (induction ls offset lo hi rule: offset_to_line_loop.induct)
  case (1 ls offset lo hi)
  show ?case
  proof (cases "lo < hi")
    case False
    then have "offset_to_line_loop ls offset lo hi = Inr lo"
      by (subst offset_to_line_loop.simps) simp
    moreover from False "1.prems" have "lo = hi"
      by simp
    ultimately show ?thesis
      using "1.prems" by (intro exI [of _ "nat lo"]) auto
  next
    case True
    define mid where "mid = (lo + hi + 1) div 2"
    from True have mid: "lo < mid" "mid \<le> hi"
      by (simp_all add: mid_def)
    with "1.prems" have ix: "py_index_int ls mid = Inr (ls ! nat mid)"
      by (simp add: py_index_int_def)
    show ?thesis
    proof (cases "ls ! nat mid \<le> offset")
      case le: True
      have step: "offset_to_line_loop ls offset lo hi = offset_to_line_loop ls offset mid hi"
        by (subst offset_to_line_loop.simps) (simp add: True ix le Let_def flip: mid_def)
      from "1.IH"(1) [OF True mid_def ix le "1.prems"(1)] mid "1.prems" le
      show ?thesis
        unfolding step by simp
    next
      case gt: False
      have step: "offset_to_line_loop ls offset lo hi = offset_to_line_loop ls offset lo (mid - 1)"
        by (subst offset_to_line_loop.simps) (simp add: True ix gt Let_def flip: mid_def)
      have "\<forall>j. nat (mid - 1) < j \<and> j < length ls \<longrightarrow> offset < ls ! j"
      proof (intro allI impI)
        fix j
        assume j: "nat (mid - 1) < j \<and> j < length ls"
        with mid "1.prems" have "nat mid \<le> j"
          by linarith
        then have "ls ! nat mid \<le> ls ! j"
          using "1.prems"(1) j by (cases "nat mid = j") (auto simp: sorted_wrt_iff_nth_less less_imp_le)
        with gt show "offset < ls ! j"
          by simp
      qed
      with "1.IH"(2) [OF True mid_def ix gt "1.prems"(1)] mid "1.prems"
      show ?thesis
        unfolding step by simp
    qed
  qed
qed

lemma line_starts_nonempty: "line_starts t \<noteq> []" and line_starts_0: "line_starts t ! 0 = 0"
  by (simp_all add: line_starts_eq)

lemma offset_to_line_index:
  assumes "0 \<le> offset"
  shows "\<exists>k. offset_to_line (line_starts t) offset = Inr (int k + 1) \<and> k < length (line_starts t) \<and>
             line_starts t ! k \<le> offset \<and>
             (\<forall>j. k < j \<and> j < length (line_starts t) \<longrightarrow> offset < line_starts t ! j)"
proof -
  let ?ls = "line_starts t"
  have "\<exists>k. offset_to_line_loop ?ls offset 0 (int (length ?ls) - 1) = Inr (int k) \<and> k < length ?ls \<and>
             ?ls ! k \<le> offset \<and> (\<forall>j. k < j \<and> j < length ?ls \<longrightarrow> offset < ?ls ! j)"
  proof (rule offset_to_line_loop_correct)
    show "sorted_wrt (<) ?ls"
      by (rule line_starts_sorted)
    show "0 \<le> int (length ?ls) - 1"
      using line_starts_nonempty [of t] by (cases ?ls) auto
    show "?ls ! nat 0 \<le> offset"
      using assms by (simp add: line_starts_0)
    show "\<forall>j. nat (int (length ?ls) - 1) < j \<and> j < length ?ls \<longrightarrow> offset < ?ls ! j"
      by auto
  qed simp_all
  then show ?thesis
    by (auto simp: offset_to_line_def)
qed

lemma filter_less_upt: "filter (\<lambda>i. i < m) [0 ..< n] = [0 ..< min m n]"
proof (induction n)
  case 0
  then show ?case
    by simp
next
  case (Suc n)
  show ?case
  proof (cases "n < m")
    case True
    then have "min m n = n" "min m (Suc n) = Suc n"
      by simp_all
    with Suc True show ?thesis
      by simp
  next
    case False
    then have "min m n = m" "min m (Suc n) = m"
      by simp_all
    with Suc False show ?thesis
      by simp
  qed
qed

lemma count_nl_take:
  "length (filter (\<lambda>i. t ! i = NL \<and> i < m) [0 ..< length t]) =
   length (filter (\<lambda>c. c = NL) (take m t))"
proof -
  have "filter (\<lambda>i. t ! i = NL \<and> i < m) [0 ..< length t] =
        filter (\<lambda>i. t ! i = NL) (filter (\<lambda>i. i < m) [0 ..< length t])"
    by (simp add: conj_commute)
  also have "\<dots> = filter (\<lambda>i. t ! i = NL) [0 ..< min m (length t)]"
    by (simp only: filter_less_upt)
  finally have 1: "length (filter (\<lambda>i. t ! i = NL \<and> i < m) [0 ..< length t]) =
      length (filter (\<lambda>i. t ! i = NL) [0 ..< min m (length t)])"
    by simp
  have "take m t = map ((!) t) [0 ..< min m (length t)]"
    by (rule nth_equalityI) auto
  then have "filter (\<lambda>c. c = NL) (take m t) =
      map ((!) t) (filter (\<lambda>i. t ! i = NL) [0 ..< min m (length t)])"
    by (simp add: filter_map comp_def)
  with 1 show ?thesis
    by simp
qed

lemma count_line_starts_le:
  assumes "0 \<le> offset"
  shows "length (filter (\<lambda>x. x \<le> offset) (line_starts t)) =
         Suc (length (filter (\<lambda>c. c = NL) (take (nat offset) t)))"
proof -
  have "filter (\<lambda>x. x \<le> offset) (map (\<lambda>i. int i + 1) (filter (\<lambda>i. t ! i = NL) [0 ..< length t])) =
        map (\<lambda>i. int i + 1) (filter (\<lambda>i. t ! i = NL \<and> i < nat offset) [0 ..< length t])"
    using assms by (auto simp: filter_map comp_def intro!: arg_cong [where f = "map _"] filter_cong)
  then show ?thesis
    using assms by (simp add: line_starts_eq count_nl_take)
qed

lemma sorted_filter_le_index:
  assumes "sorted_wrt (<) (ls :: int list)" and "k < length ls" and "ls ! k \<le> offset"
    and "\<forall>j. k < j \<and> j < length ls \<longrightarrow> offset < ls ! j"
  shows "filter (\<lambda>x. x \<le> offset) ls = take (Suc k) ls"
proof -
  have "filter (\<lambda>x. x \<le> offset) (take (Suc k) ls @ drop (Suc k) ls) = take (Suc k) ls"
  proof -
    have "\<forall>x\<in>set (take (Suc k) ls). x \<le> offset"
    proof
      fix x
      assume "x \<in> set (take (Suc k) ls)"
      then obtain i where i: "i < Suc k" "i < length ls" "x = ls ! i"
        by (auto simp: in_set_conv_nth)
      then have "ls ! i \<le> ls ! k"
        using assms(1,2) by (cases "i = k") (auto simp: sorted_wrt_iff_nth_less less_imp_le)
      with i assms(3) show "x \<le> offset"
        by simp
    qed
    moreover have "\<forall>x\<in>set (drop (Suc k) ls). \<not> x \<le> offset"
    proof
      fix x
      assume "x \<in> set (drop (Suc k) ls)"
      then obtain i where "i < length ls - Suc k" "x = ls ! (Suc k + i)"
        by (auto simp: in_set_conv_nth)
      with assms(4) show "\<not> x \<le> offset"
        by (auto simp: not_le)
    qed
    ultimately have "filter (\<lambda>x. x \<le> offset) (take (Suc k) ls) = take (Suc k) ls"
      and "filter (\<lambda>x. x \<le> offset) (drop (Suc k) ls) = []"
      by (simp_all add: filter_empty_conv)
    then show ?thesis
      by (simp only: filter_append append_Nil2)
  qed
  then show ?thesis
    by (simp only: append_take_drop_id)
qed

lemma offset_to_line_count:
  assumes "0 \<le> offset"
  shows "offset_to_line (line_starts t) offset =
           Inr (int (length (filter (\<lambda>c. c = NL) (take (nat offset) t))) + 1)"
proof -
  from offset_to_line_index [OF assms, of t] obtain k
    where k: "offset_to_line (line_starts t) offset = Inr (int k + 1)" "k < length (line_starts t)"
      "line_starts t ! k \<le> offset"
      "\<forall>j. k < j \<and> j < length (line_starts t) \<longrightarrow> offset < line_starts t ! j"
    by blast
  from sorted_filter_le_index [OF line_starts_sorted k(2,3,4)] k(2)
  have "length (filter (\<lambda>x. x \<le> offset) (line_starts t)) = Suc k"
    by simp
  with count_line_starts_le [OF assms, of t] k(1) show ?thesis
    by simp
qed

text \<open>
  C2: the index of line starts is sorted and holds offset 0 and the offset behind every
  newline; for every text and every offset from 0 on, \<open>offset_to_line\<close> returns the 1-based
  index of the greatest line start that is at most the offset, which is one more than the
  number of newlines before the offset. An offset on the first line is reported as line 1, an
  offset on the last line as the number of the last line.
\<close>

theorem offset_to_line_greatest_line_start:
  assumes "0 \<le> offset"
  shows "sorted_wrt (<) (line_starts md_text) \<and>
         set (line_starts md_text) = insert 0 {int i + 1 | i. i < length md_text \<and> md_text ! i = NL} \<and>
         (\<exists>k < length (line_starts md_text).
            offset_to_line (line_starts md_text) offset = Inr (int k + 1) \<and>
            line_starts md_text ! k \<le> offset \<and>
            (\<forall>j < length (line_starts md_text). line_starts md_text ! j \<le> offset \<longrightarrow> j \<le> k) \<and>
            k = length (filter (\<lambda>c. c = NL) (take (nat offset) md_text)) \<and>
            (NL \<notin> set (take (nat offset) md_text) \<longrightarrow> k + 1 = 1) \<and>
            (NL \<notin> set (drop (nat offset) md_text) \<longrightarrow> k + 1 = length (line_starts md_text)))"
proof -
  let ?ls = "line_starts md_text"
  from offset_to_line_index [OF assms, of md_text] obtain k
    where k: "offset_to_line ?ls offset = Inr (int k + 1)" "k < length ?ls" "?ls ! k \<le> offset"
      "\<forall>j. k < j \<and> j < length ?ls \<longrightarrow> offset < ?ls ! j"
    by blast
  from k(4) have max: "\<forall>j < length ?ls. ?ls ! j \<le> offset \<longrightarrow> j \<le> k"
    by (meson not_le)
  from offset_to_line_count [OF assms, of md_text] k(1)
  have cnt: "k = length (filter (\<lambda>c. c = NL) (take (nat offset) md_text))"
    by simp
  have first: "NL \<notin> set (take (nat offset) md_text) \<longrightarrow> k + 1 = 1"
    unfolding cnt by (auto simp: filter_empty_conv)
  have last: "NL \<notin> set (drop (nat offset) md_text) \<longrightarrow> k + 1 = length ?ls"
  proof
    assume "NL \<notin> set (drop (nat offset) md_text)"
    then have "filter (\<lambda>c. c = NL) (drop (nat offset) md_text) = []"
      by (auto simp: filter_empty_conv)
    then have "filter (\<lambda>c. c = NL) md_text = filter (\<lambda>c. c = NL) (take (nat offset) md_text)"
      by (metis append_Nil2 append_take_drop_id filter_append)
    moreover have "length ?ls = Suc (length (filter (\<lambda>c. c = NL) md_text))"
    proof -
      have "filter (\<lambda>i. md_text ! i = NL \<and> i < length md_text) [0 ..< length md_text] =
            filter (\<lambda>i. md_text ! i = NL) [0 ..< length md_text]"
        by (rule filter_cong) auto
      with count_nl_take [of md_text "length md_text"] show ?thesis
        by (simp add: line_starts_eq)
    qed
    ultimately show "k + 1 = length ?ls"
      using cnt by simp
  qed
  from k(1,2,3) max cnt first last line_starts_sorted [of md_text] line_starts_set [of md_text]
  show ?thesis
    by blast
qed

theorem offset_to_line_greatest_line_start_witness:
  "(0::int) \<le> 4 \<and> line_starts (u ''ab\<newline>cd\<newline>ef'') = [0, 3, 6] \<and>
   offset_to_line (line_starts (u ''ab\<newline>cd\<newline>ef'')) 4 = Inr 2 \<and>
   offset_to_line (line_starts (u ''ab\<newline>cd\<newline>ef'')) 0 = Inr 1 \<and>
   offset_to_line (line_starts (u ''ab\<newline>cd\<newline>ef'')) 7 = Inr 3"
proof -
  have h: "(0::int) \<le> 4"
    by simp
  have ls: "line_starts (u ''ab\<newline>cd\<newline>ef'') = [0, 3, 6]"
    by code_simp
  have "offset_to_line (line_starts (u ''ab\<newline>cd\<newline>ef'')) 4 = Inr 2"
    using offset_to_line_greatest_line_start [OF h, of "u ''ab\<newline>cd\<newline>ef''"]
    unfolding ls by (auto simp: less_Suc_eq numeral_3_eq_3 numeral_2_eq_2)
  moreover have "offset_to_line (line_starts (u ''ab\<newline>cd\<newline>ef'')) 0 = Inr 1"
    "offset_to_line (line_starts (u ''ab\<newline>cd\<newline>ef'')) 7 = Inr 3"
    by code_simp+
  ultimately show ?thesis
    using ls by simp
qed

section \<open>What the fence pattern matches\<close>

text \<open>
  Lemmas about the backtracking matcher for patterns in which a greedy repetition is followed by
  something that cannot start with a character of the repeated class: only the longest run
  leads on, so the repetition never gives characters back.
\<close>

lemma concat_map_Nil: "(\<And>x. x \<in> set xs \<Longrightarrow> f x = []) \<Longrightarrow> concat (map f xs) = []"
  by (induction xs) auto

lemma rev_upt_last: "m \<le> n \<Longrightarrow> rev [m ..< Suc n] = n # rev [m ..< n]"
  by simp

lemma bt_Cat_Star_commit:
  assumes "m \<le> length (takeWhile P s)"
    and "\<And>j. m \<le> j \<Longrightarrow> j < length (takeWhile P s) \<Longrightarrow> bt R (i + j, drop j s, g) = []"
  shows "bt (Cat (Star P m) R) (i, s, g) = bt R (i + length (takeWhile P s), dropWhile P s, g)"
proof -
  let ?n = "length (takeWhile P s)"
  let ?f = "\<lambda>j. (i + j, drop j s, g)"
  have "bt (Cat (Star P m) R) (i, s, g) = concat (map (\<lambda>j. bt R (?f j)) (rev [m ..< Suc ?n]))"
    by (simp add: comp_def)
  also have "\<dots> = bt R (?f ?n) @ concat (map (\<lambda>j. bt R (?f j)) (rev [m ..< ?n]))"
    using assms(1) by (simp only: rev_upt_last list.map concat.simps)
  also have "concat (map (\<lambda>j. bt R (?f j)) (rev [m ..< ?n])) = []"
    by (rule concat_map_Nil) (use assms(2) in auto)
  finally show ?thesis
    by (simp add: dropWhile_eq_drop)
qed

lemma bt_Cat_Group_Star_commit:
  assumes "m \<le> length (takeWhile P s)"
    and "\<And>j g'. m \<le> j \<Longrightarrow> j < length (takeWhile P s) \<Longrightarrow> bt R (i + j, drop j s, g') = []"
  shows "bt (Cat (Group k (Star P m)) R) (i, s, g) =
           bt R (i + length (takeWhile P s), dropWhile P s, g(k \<mapsto> takeWhile P s))"
proof -
  let ?n = "length (takeWhile P s)"
  let ?f = "\<lambda>j. (i + j, drop j s, g(k \<mapsto> take j s))"
  have 0: "bt (Group k (Star P m)) (i, s, g) = map ?f (rev [m ..< Suc ?n])"
    by simp
  have "bt (Cat (Group k (Star P m)) R) (i, s, g) = concat (map (bt R) (map ?f (rev [m ..< Suc ?n])))"
    by (simp only: bt.simps(6) 0)
  also have "\<dots> = concat (map (bt R) (?f ?n # map ?f (rev [m ..< ?n])))"
    using assms(1) by (simp only: rev_upt_last list.map)
  also have "\<dots> = bt R (?f ?n) @ concat (map (bt R) (map ?f (rev [m ..< ?n])))"
    by (simp only: list.map concat.simps)
  finally have A: "bt (Cat (Group k (Star P m)) R) (i, s, g) =
      bt R (?f ?n) @ concat (map (bt R) (map ?f (rev [m ..< ?n])))" .
  have B: "concat (map (bt R) (map ?f (rev [m ..< ?n]))) = []"
    by (rule concat_map_Nil) (use assms(2) in auto)
  have C: "drop ?n s = dropWhile P s" "take ?n s = takeWhile P s"
    by (simp_all add: dropWhile_eq_drop takeWhile_eq_take [symmetric])
  from A show ?thesis
    unfolding B C by (simp only: append_Nil2)
qed

lemma bt_Cat_Group_Star_short:
  "length (takeWhile P s) < m \<Longrightarrow> bt (Cat (Group k (Star P m)) R) (i, s, g) = []"
  by simp

lemma drop_in_takeWhile:
  assumes "j < length (takeWhile P s)"
  shows "\<exists>c r. drop j s = c # r \<and> P c"
proof -
  from assms have j: "j < length s"
    using length_takeWhile_le [of P s] by simp
  then have "drop j s = s ! j # drop (Suc j) s"
    by (simp add: Cons_nth_drop_Suc)
  moreover from assms have "P (s ! j)"
    by (metis nth_mem set_takeWhileD takeWhile_nth)
  ultimately show ?thesis
    by blast
qed

lemma u_ticks: "u ''```'' = ticks"
  by (simp add: u_def)

lemma fence_re_unfold: "fence_re = Cat (Lit ticks) re_ws"
  by (simp add: fence_re_def re_ws_def re_tag_def re_hint_def re_nl_def re_body_def u_ticks)

lemma bt_re_nl:
  "bt re_nl (i, s, g) = (case s of [] \<Rightarrow> [] | c # rest \<Rightarrow> if c = NL then bt re_body (i + 1, rest, g) else [])"
  by (cases s) (simp_all add: re_nl_def)

lemma bt_re_hint:
  "bt re_hint (i, s, g) =
     (case s of
        [] \<Rightarrow> []
      | c # s2 \<Rightarrow>
          if c = NL then bt re_body (i + 1, s2, g)
          else if c = COLON then
            (case dropWhile (\<lambda>c. c \<noteq> NL) s2 of
               [] \<Rightarrow> []
             | d # rest \<Rightarrow>
                 if takeWhile (\<lambda>c. c \<noteq> NL) s2 \<noteq> []
                 then bt re_body (i + 1 + length (takeWhile (\<lambda>c. c \<noteq> NL) s2) + 1, rest,
                        g(2 \<mapsto> takeWhile (\<lambda>c. c \<noteq> NL) s2))
                 else [])
          else [])"
proof (cases s)
  case Nil
  then show ?thesis
    by (simp add: re_hint_def bt_re_nl)
next
  case (Cons c s2)
  let ?G = "Group 2 (Star (\<lambda>c. c \<noteq> NL) 1)"
  define tw where "tw = takeWhile (\<lambda>c. c \<noteq> NL) s2"
  define dw where "dw = dropWhile (\<lambda>c. c \<noteq> NL) s2"
  have split: "bt re_hint (i, s, g) =
      concat (map (bt re_nl) (bt (Cat (Lit [COLON]) ?G) (i, s, g))) @ bt re_nl (i, s, g)"
    by (simp add: re_hint_def)
  have "bt re_hint (i, s, g) =
      (if c = NL then bt re_body (i + 1, s2, g)
       else if c = COLON then
         (case dw of [] \<Rightarrow> []
          | d # rest \<Rightarrow> if tw \<noteq> [] then bt re_body (i + 1 + length tw + 1, rest, g(2 \<mapsto> tw)) else [])
       else [])"
  proof (cases "c = COLON")
    case False
    with Cons split show ?thesis
      by (simp add: bt_re_nl)
  next
    case True
    with Cons have "bt (Cat (Lit [COLON]) ?G) (i, s, g) = bt ?G (i + 1, s2, g)"
      by simp
    with split True Cons have 1: "bt re_hint (i, s, g) = bt (Cat ?G re_nl) (i + 1, s2, g)"
      by (simp add: bt_re_nl)
    show ?thesis
    proof (cases "tw = []")
      case e: True
      then have "bt (Cat ?G re_nl) (i + 1, s2, g) = []"
        unfolding tw_def by (intro bt_Cat_Group_Star_short) simp
      with e 1 True show ?thesis
        by (simp split: list.splits)
    next
      case ne: False
      then have n: "1 \<le> length (takeWhile (\<lambda>c. c \<noteq> NL) s2)"
        unfolding tw_def by (simp add: Suc_le_eq)
      have "bt (Cat ?G re_nl) (i + 1, s2, g) =
              bt re_nl (i + 1 + length (takeWhile (\<lambda>c. c \<noteq> NL) s2), dropWhile (\<lambda>c. c \<noteq> NL) s2,
                        g(2 \<mapsto> takeWhile (\<lambda>c. c \<noteq> NL) s2))"
      proof (rule bt_Cat_Group_Star_commit [OF n])
        fix j g'
        assume "j < length (takeWhile (\<lambda>c. c \<noteq> NL) s2)"
        from drop_in_takeWhile [OF this] show "bt re_nl (i + 1 + j, drop j s2, g') = []"
          by (auto simp: bt_re_nl)
      qed
      then have 2: "bt re_hint (i, s, g) = bt re_nl (i + 1 + length tw, dw, g(2 \<mapsto> tw))"
        unfolding 1 tw_def dw_def .
      have 3: "dw = [] \<or> (\<exists>rest. dw = NL # rest)"
        unfolding dw_def using hd_dropWhile [of "\<lambda>c. c \<noteq> NL" s2]
        by (cases "dropWhile (\<lambda>c. c \<noteq> NL) s2") auto
      from 3 show ?thesis
      proof
        assume "dw = []"
        with 2 True show ?thesis
          by (simp add: bt_re_nl)
      next
        assume "\<exists>rest. dw = NL # rest"
        then obtain rest where "dw = NL # rest" ..
        with 2 True ne show ?thesis
          by (simp add: bt_re_nl)
      qed
    qed
  qed
  with Cons show ?thesis
    unfolding tw_def dw_def by (simp only: list.case)
qed

lemma is_tag_char_not_special:
  "is_tag_char c \<Longrightarrow> c \<noteq> NL \<and> c \<noteq> COLON \<and> c \<noteq> SP \<and> c \<noteq> TAB \<and> c \<noteq> BT"
  by (auto simp: is_tag_char_def u_def)

lemma bt_re_hint_fail: "c \<noteq> NL \<Longrightarrow> c \<noteq> COLON \<Longrightarrow> bt re_hint (i, c # r, g) = []"
  by (simp add: bt_re_hint)

lemma bt_re_tag:
  "bt re_tag (i, s, g) =
     bt re_hint (i + length (takeWhile is_tag_char s), dropWhile is_tag_char s,
                 g(1 \<mapsto> takeWhile is_tag_char s))"
  unfolding re_tag_def
proof (rule bt_Cat_Group_Star_commit)
  fix j g'
  assume "j < length (takeWhile is_tag_char s)"
  from drop_in_takeWhile [OF this] obtain c r where "drop j s = c # r" "is_tag_char c"
    by blast
  then show "bt re_hint (i + j, drop j s, g') = []"
    using is_tag_char_not_special [of c] by (simp add: bt_re_hint_fail)
qed simp

lemma bt_re_tag_fail:
  assumes "c = SP \<or> c = TAB"
  shows "bt re_tag (i, c # r, g) = []"
proof -
  from assms have "\<not> is_tag_char c"
    using is_tag_char_not_special [of c] by auto
  then have "takeWhile is_tag_char (c # r) = []" "dropWhile is_tag_char (c # r) = c # r"
    by simp_all
  with assms show ?thesis
    by (auto simp: bt_re_tag bt_re_hint_fail)
qed

lemma bt_re_ws:
  "bt re_ws (i, s, g) =
     bt re_tag (i + length (takeWhile (\<lambda>c. c = SP \<or> c = TAB) s), dropWhile (\<lambda>c. c = SP \<or> c = TAB) s, g)"
  unfolding re_ws_def
proof (rule bt_Cat_Star_commit)
  fix j
  assume "j < length (takeWhile (\<lambda>c. c = SP \<or> c = TAB) s)"
  from drop_in_takeWhile [OF this] obtain c r where "drop j s = c # r" "c = SP \<or> c = TAB"
    by blast
  then show "bt re_tag (i + j, drop j s, g) = []"
    by (simp add: bt_re_tag_fail)
qed simp

lemma bt_fence_re_ws:
  "bt fence_re (i, s, g) = (if prefix ticks s then bt re_ws (i + 3, drop 3 s, g) else [])"
  by (simp add: fence_re_unfold numeral_3_eq_3)

lemma bt_re_ws_header:
  "bt re_ws (i, s, g) =
     (case fence_header s of
        None \<Rightarrow> []
      | Some (tag, hint, n, rest) \<Rightarrow> bt re_body (i + n, rest, header_groups g tag hint))"
proof -
  define wn where "wn = length (takeWhile (\<lambda>c. c = SP \<or> c = TAB) s)"
  define s1 where "s1 = dropWhile (\<lambda>c. c = SP \<or> c = TAB) s"
  define tag where "tag = takeWhile is_tag_char s1"
  define s2 where "s2 = dropWhile is_tag_char s1"
  have bt: "bt re_ws (i, s, g) = bt re_hint (i + wn + length tag, s2, g(1 \<mapsto> tag))"
    by (simp add: bt_re_ws bt_re_tag wn_def s1_def tag_def s2_def)
  have fh: "fence_header s =
     (case s2 of
        [] \<Rightarrow> None
      | c # s3 \<Rightarrow>
          if c = NL then Some (tag, None, wn + length tag + 1, s3)
          else if c = COLON then
            (case dropWhile (\<lambda>c. c \<noteq> NL) s3 of
               [] \<Rightarrow> None
             | d # rest \<Rightarrow>
                 if takeWhile (\<lambda>c. c \<noteq> NL) s3 \<noteq> []
                 then Some (tag, Some (takeWhile (\<lambda>c. c \<noteq> NL) s3),
                            wn + length tag + 1 + length (takeWhile (\<lambda>c. c \<noteq> NL) s3) + 1, rest)
                 else None)
          else None)"
    unfolding fence_header_def Let_def wn_def s1_def tag_def s2_def by (rule refl)
  show ?thesis
  proof (cases s2)
    case Nil
    then show ?thesis
      unfolding bt fh by (simp add: bt_re_hint)
  next
    case (Cons c s3)
    define tw where "tw = takeWhile (\<lambda>c. c \<noteq> NL) s3"
    define dw where "dw = dropWhile (\<lambda>c. c \<noteq> NL) s3"
    show ?thesis
    proof (cases dw)
      case Nil
      with Cons show ?thesis
        unfolding bt fh by (simp add: bt_re_hint header_groups_def add.assoc flip: tw_def dw_def)
    next
      case dw: (Cons d rest)
      with Cons show ?thesis
        unfolding bt fh
        by (simp add: bt_re_hint header_groups_def add.assoc flip: tw_def dw_def)
    qed
  qed
qed

lemma bt_fence_re_header:
  "bt fence_re (i, s, g) =
     (if prefix ticks s then
        (case fence_header (drop 3 s) of
           None \<Rightarrow> []
         | Some (tag, hint, n, rest) \<Rightarrow> bt re_body (i + 3 + n, rest, header_groups g tag hint))
      else [])"
  by (simp add: bt_fence_re_ws bt_re_ws_header)

lemma no_ticks_drop: "\<not> contains_ticks s \<Longrightarrow> \<not> prefix ticks (drop j s)"
proof (induction s arbitrary: j)
  case Nil
  then show ?case
    by simp
next
  case (Cons c cs)
  then show ?case
    by (cases j) auto
qed

lemma before_ticks_no_prefix: "j < length (before_ticks s) \<Longrightarrow> \<not> prefix ticks (drop j s)"
proof (induction s arbitrary: j)
  case Nil
  then show ?case
    by simp
next
  case (Cons c cs)
  then show ?case
    by (cases j) (auto split: if_splits)
qed

lemma before_ticks_split:
  "contains_ticks s \<Longrightarrow>
     prefix ticks (drop (length (before_ticks s)) s) \<and>
     take (length (before_ticks s)) s = before_ticks s \<and> length (before_ticks s) \<le> length s"
  by (induction s) auto

lemma bt_re_body_eq:
  "bt re_body (i, rest, g) =
     concat (map (\<lambda>j. if prefix ticks (drop j rest)
                       then [(i + j + 3, drop (j + 3) rest, g(3 \<mapsto> take j rest))] else [])
                 [0 ..< Suc (length rest)])"
proof -
  have tw: "takeWhile (\<lambda>c. True) rest = rest"
    by (induction rest) auto
  have 0: "bt (Group 3 (Lazy (\<lambda>c. True))) (i, rest, g) =
             map (\<lambda>j. (i + j, drop j rest, g(3 \<mapsto> take j rest))) [0 ..< Suc (length rest)]"
    unfolding bt.simps tw by simp
  have 1: "bt (Lit ticks) (i + j, drop j rest, g') =
      (if prefix ticks (drop j rest) then [(i + j + 3, drop (j + 3) rest, g')] else [])" for j g'
    by (simp add: numeral_3_eq_3 add.commute)
  show ?thesis
    unfolding re_body_def bt.simps(6) 0 map_map comp_def 1 ..
qed

lemma bt_re_body_none: "\<not> contains_ticks rest \<Longrightarrow> bt re_body (i, rest, g) = []"
  unfolding bt_re_body_eq by (rule concat_map_Nil) (simp add: no_ticks_drop)

lemma bt_re_body_first:
  assumes "contains_ticks rest"
  shows "\<exists>more. bt re_body (i, rest, g) =
           (i + length (before_ticks rest) + 3, drop (length (before_ticks rest) + 3) rest,
            g(3 \<mapsto> before_ticks rest)) # more"
proof -
  let ?n = "length (before_ticks rest)"
  let ?h = "\<lambda>j. if prefix ticks (drop j rest)
                 then [(i + j + 3, drop (j + 3) rest, g(3 \<mapsto> take j rest))] else []"
  from before_ticks_split [OF assms]
  have p: "prefix ticks (drop ?n rest)" and t: "take ?n rest = before_ticks rest" and le: "?n \<le> length rest"
    by simp_all
  from le obtain d where d: "Suc (length rest) = ?n + Suc d"
    by (metis add_Suc_right le_Suc_ex)
  have "[0 ..< ?n + Suc d] = [0 ..< ?n] @ [?n ..< ?n + Suc d]"
    by (rule upt_add_eq_append) simp
  moreover have "[?n ..< ?n + Suc d] = ?n # [Suc ?n ..< ?n + Suc d]"
    by (rule upt_conv_Cons) simp
  ultimately have "[0 ..< Suc (length rest)] = [0 ..< ?n] @ ?n # [Suc ?n ..< Suc (length rest)]"
    unfolding d by (simp only:)
  then have "concat (map ?h [0 ..< Suc (length rest)]) =
      concat (map ?h [0 ..< ?n]) @ ?h ?n @ concat (map ?h [Suc ?n ..< Suc (length rest)])"
    by (simp only: map_append list.map concat_append concat.simps)
  moreover have "concat (map ?h [0 ..< ?n]) = []"
    by (rule concat_map_Nil) (simp add: before_ticks_no_prefix)
  moreover have "?h ?n = [(i + ?n + 3, drop (?n + 3) rest, g(3 \<mapsto> before_ticks rest))]"
    using p t by simp
  ultimately show ?thesis
    unfolding bt_re_body_eq by (simp only: append_Nil append_Cons) blast
qed

lemma match_at_fence:
  "match_at fence_re i s =
     (if prefix ticks s then
        (case fence_header (drop 3 s) of
           None \<Rightarrow> None
         | Some (tag, hint, n, rest) \<Rightarrow>
             if contains_ticks rest
             then Some (\<lparr>m_start = i, m_end = i + 3 + n + length (before_ticks rest) + 3,
                         m_group = (header_groups Map.empty tag hint)(3 \<mapsto> before_ticks rest)\<rparr>,
                        drop (length (before_ticks rest) + 3) rest)
             else None)
      else None)"
proof (cases "prefix ticks s")
  case False
  then show ?thesis
    by (simp add: match_at_def bt_fence_re_header)
next
  case True
  show ?thesis
  proof (cases "fence_header (drop 3 s)")
    case None
    with True show ?thesis
      by (simp add: match_at_def bt_fence_re_header)
  next
    case (Some h)
    then obtain tag hint n rest where h: "fence_header (drop 3 s) = Some (tag, hint, n, rest)"
      by (cases h) auto
    show ?thesis
    proof (cases "contains_ticks rest")
      case False
      with True h show ?thesis
        by (simp add: match_at_def bt_fence_re_header bt_re_body_none)
    next
      case c: True
      from bt_re_body_first [OF c, of "i + 3 + n" "header_groups Map.empty tag hint"]
      obtain more where "bt re_body (i + 3 + n, rest, header_groups Map.empty tag hint) =
           (i + 3 + n + length (before_ticks rest) + 3, drop (length (before_ticks rest) + 3) rest,
            (header_groups Map.empty tag hint)(3 \<mapsto> before_ticks rest)) # more"
        by blast
      with True h c show ?thesis
        by (simp add: match_at_def bt_fence_re_header)
    qed
  qed
qed

lemma match_at_fence_no_ticks: "\<not> prefix ticks s \<Longrightarrow> match_at fence_re i s = None"
  by (simp add: match_at_fence)

lemma re_search_fence_none: "\<not> contains_ticks s \<Longrightarrow> re_search fence_re i s = None"
proof (induction s arbitrary: i)
  case Nil
  then show ?case
    by (simp add: match_at_fence_no_ticks)
next
  case (Cons c cs)
  then show ?case
    by (simp add: match_at_fence_no_ticks)
qed

lemma prefix_ticks_append:
  assumes "prefix ticks (p @ s)" and "p \<noteq> []" and "last p \<noteq> BT"
  shows "prefix ticks p"
proof -
  from assms obtain a p1 where p: "p = a # p1"
    by (cases p) auto
  show ?thesis
  proof (cases p1)
    case Nil
    with p assms show ?thesis
      by auto
  next
    case (Cons b p2)
    show ?thesis
    proof (cases p2)
      case Nil
      with p Cons assms show ?thesis
        by auto
    next
      case (Cons c p3)
      with p \<open>p1 = b # p2\<close> assms(1) show ?thesis
        by auto
    qed
  qed
qed

lemma re_search_fence_skip:
  "\<not> contains_ticks pre \<Longrightarrow> pre = [] \<or> last pre \<noteq> BT \<Longrightarrow>
     re_search fence_re i (pre @ s) = re_search fence_re (i + length pre) s"
proof (induction pre arbitrary: i)
  case Nil
  then show ?case
    by simp
next
  case (Cons c cs)
  from Cons.prems have np: "\<not> prefix ticks (c # cs)" and nc: "\<not> contains_ticks cs"
    and l: "last (c # cs) \<noteq> BT"
    by auto
  from np l have "\<not> prefix ticks ((c # cs) @ s)"
    using prefix_ticks_append [of "c # cs" s] by blast
  then have "match_at fence_re i (c # cs @ s) = None"
    by (simp add: match_at_fence_no_ticks)
  then have "re_search fence_re i ((c # cs) @ s) = re_search fence_re (Suc i) (cs @ s)"
    by simp
  moreover from l have "cs = [] \<or> last cs \<noteq> BT"
    by (auto split: if_splits)
  ultimately show ?case
    using Cons.IH [OF nc, of "Suc i"] by simp
qed

lemma re_search_match:
  "re_search r i s = Some (m, s') \<Longrightarrow>
     \<exists>k \<le> length s. m_start m = i + k \<and> match_at r (i + k) (drop k s) = Some (m, s')"
proof (induction s arbitrary: i)
  case Nil
  then show ?case
    by (auto split: option.splits dest: match_at_advance)
next
  case (Cons c cs)
  show ?case
  proof (cases "match_at r i (c # cs)")
    case None
    with Cons.prems have "re_search r (Suc i) cs = Some (m, s')"
      by simp
    from Cons.IH [OF this] obtain k where "k \<le> length cs" "m_start m = Suc i + k"
      "match_at r (Suc i + k) (drop k cs) = Some (m, s')"
      by blast
    then show ?thesis
      by (intro exI [of _ "Suc k"]) simp
  next
    case (Some a)
    with Cons.prems have "match_at r i (c # cs) = Some (m, s')"
      by simp
    with match_at_advance [OF this] show ?thesis
      by (intro exI [of _ 0]) simp
  qed
qed

lemma finditer_None: "re_search r i s = None \<Longrightarrow> finditer r i s = []"
  by (subst finditer.simps) simp

lemma finditer_Some:
  "re_search r i s = Some (m, s') \<Longrightarrow> m_start m < m_end m \<Longrightarrow>
     finditer r i s = m # finditer r (m_end m) s'"
  by (subst finditer.simps) simp

lemma finditer_fence_none: "\<not> contains_ticks s \<Longrightarrow> finditer fence_re i s = []"
  by (simp add: finditer_None re_search_fence_none)

lemma finditer_match:
  "m \<in> set (finditer r i s) \<Longrightarrow>
     \<exists>k s'. k \<le> length s \<and> m_start m = i + k \<and> match_at r (i + k) (drop k s) = Some (m, s')"
proof (induction r i s rule: finditer.induct)
  case (1 r i s)
  show ?case
  proof (cases "re_search r i s")
    case None
    with "1.prems" show ?thesis
      by (simp add: finditer_None)
  next
    case (Some x)
    then obtain m0 s0 where rs: "re_search r i s = Some (m0, s0)"
      by (cases x) auto
    from re_search_advance [OF rs]
    have adv: "i \<le> m_start m0" "m_start m0 \<le> m_end m0" "length s0 + (m_end m0 - i) = length s"
      by simp_all
    from re_search_match [OF rs] obtain k0 where k0: "k0 \<le> length s" "m_start m0 = i + k0"
      "match_at r (i + k0) (drop k0 s) = Some (m0, s0)"
      by blast
    from match_at_advance [OF k0(3)] obtain k1 where k1: "m_end m0 = i + k0 + k1"
      "s0 = drop k1 (drop k0 s)" "k1 \<le> length (drop k0 s)"
      by blast
    have fi: "finditer r i s = m0 # (if m_start m0 < m_end m0 then finditer r (m_end m0) s0
               else (case s0 of [] \<Rightarrow> [] | _ # s'' \<Rightarrow> finditer r (Suc (m_end m0)) s''))"
      by (subst finditer.simps) (simp add: rs)
    show ?thesis
    proof (cases "m = m0")
      case True
      with k0 show ?thesis
        by blast
    next
      case False
      show ?thesis
      proof (cases "m_start m0 < m_end m0")
        case lt: True
        with fi False "1.prems" have "m \<in> set (finditer r (m_end m0) s0)"
          by simp
        from "1.IH"(1) [OF rs refl lt this] obtain k s'
          where k: "k \<le> length s0" "m_start m = m_end m0 + k"
            "match_at r (m_end m0 + k) (drop k s0) = Some (m, s')"
          by blast
        have "drop k s0 = drop (k0 + k1 + k) s"
          unfolding k1(2) by (simp add: add.commute add.left_commute)
        moreover have "k0 + k1 + k \<le> length s"
          using k(1) adv(3) k1(1) by simp
        ultimately show ?thesis
          using k k1(1) by (intro exI [of _ "k0 + k1 + k"] exI [of _ s']) (simp add: add.assoc)
      next
        case ge: False
        with fi False "1.prems" obtain c s'' where s0: "s0 = c # s''"
          and mem: "m \<in> set (finditer r (Suc (m_end m0)) s'')"
          by (cases s0) auto
        from "1.IH"(2) [OF rs refl ge s0 mem] obtain k s'
          where k: "k \<le> length s''" "m_start m = Suc (m_end m0) + k"
            "match_at r (Suc (m_end m0) + k) (drop k s'') = Some (m, s')"
          by blast
        have "drop k s'' = drop (Suc k) s0"
          using s0 by simp
        then have "drop k s'' = drop (k0 + k1 + Suc k) s"
          unfolding k1(2) by (simp add: add.commute add.left_commute)
        moreover have "k0 + k1 + Suc k \<le> length s"
          using k(1) adv(3) s0 k1(1) by simp
        ultimately show ?thesis
          using k k1(1) by (intro exI [of _ "k0 + k1 + Suc k"] exI [of _ s']) (simp add: add.assoc)
      qed
    qed
  qed
qed

lemma collect_blocks_eq:
  "collect_blocks (line_starts t) ms result = Inr (result @ map (block_of t) ms)"
proof (induction ms arbitrary: result)
  case Nil
  then show ?case
    by simp
next
  case (Cons m ms)
  have "offset_to_line (line_starts t) (int (m_start m)) =
          Inr (int (length (filter (\<lambda>c. c = NL) (take (m_start m) t))) + 1)"
    using offset_to_line_count [of "int (m_start m)" t] by simp
  with Cons.IH show ?case
    by (simp add: block_of_def)
qed

lemma extract_code_blocks_eq:
  "extract_code_blocks t = Inr (map (block_of t) (finditer fence_re 0 t))"
  by (simp add: extract_code_blocks_def collect_blocks_eq)

lemma is_tag_char_not_space: "is_tag_char c \<Longrightarrow> \<not> isspace c"
  by (auto simp: is_tag_char_def isspace_def u_def)

lemma py_strip_id:
  assumes "s \<noteq> []" and "\<not> isspace (hd s)" and "\<not> isspace (last s)"
  shows "py_strip s = s"
proof -
  from assms(1,2) have 1: "dropWhile isspace s = s"
    by (cases s) auto
  from assms(1,3) have "dropWhile isspace (rev s) = rev s"
    by (cases "rev s") (auto simp: hd_rev)
  with 1 show ?thesis
    by (simp add: py_strip_def)
qed

lemma strip_or_empty_tag: "\<forall>c\<in>set tag. is_tag_char c \<Longrightarrow> strip_or_empty (Some tag) = tag"
proof (cases "tag = []")
  case True
  then show ?thesis
    by (simp add: strip_or_empty_def)
next
  case False
  assume "\<forall>c\<in>set tag. is_tag_char c"
  with False have "\<not> isspace (hd tag)" "\<not> isspace (last tag)"
    by (simp_all add: is_tag_char_not_space)
  with False show ?thesis
    by (simp add: strip_or_empty_def py_strip_id)
qed


lemma fence_header_hint:
  assumes "\<forall>c\<in>set ws. c = SP \<or> c = TAB" and "\<forall>c\<in>set tag. is_tag_char c"
    and "name \<noteq> []" and "NL \<notin> set name"
  shows "fence_header (ws @ tag @ COLON # name @ NL # rest) =
           Some (tag, Some name, length ws + length tag + 1 + length name + 1, rest)"
proof -
  let ?s2 = "COLON # name @ NL # rest"
  have nws: "tag @ ?s2 = [] \<or> \<not> (hd (tag @ ?s2) = SP \<or> hd (tag @ ?s2) = TAB)"
    using assms(2) is_tag_char_not_special [of "hd tag"] by (cases tag) auto
  have ntag: "?s2 = [] \<or> \<not> is_tag_char (hd ?s2)"
    using is_tag_char_not_special [of COLON] by auto
  have nn: "\<forall>c\<in>set name. c \<noteq> NL"
    using assms(4) by auto
  have nl: "NL # rest = [] \<or> \<not> hd (NL # rest) \<noteq> NL"
    by simp
  have 1: "dropWhile (\<lambda>c. c = SP \<or> c = TAB) (ws @ tag @ ?s2) = tag @ ?s2"
    using assms(1) nws by (rule dropWhile_all_append)
  have 2: "takeWhile (\<lambda>c. c = SP \<or> c = TAB) (ws @ tag @ ?s2) = ws"
    using assms(1) nws by (rule takeWhile_all_append)
  have 3: "takeWhile is_tag_char (tag @ ?s2) = tag"
    using assms(2) ntag by (rule takeWhile_all_append)
  have 4: "dropWhile is_tag_char (tag @ ?s2) = ?s2"
    using assms(2) ntag by (rule dropWhile_all_append)
  have 5: "takeWhile (\<lambda>c. c \<noteq> NL) (name @ NL # rest) = name"
    using nn nl by (rule takeWhile_all_append)
  have 6: "dropWhile (\<lambda>c. c \<noteq> NL) (name @ NL # rest) = NL # rest"
    using nn nl by (rule dropWhile_all_append)
  show ?thesis
    unfolding fence_header_def Let_def 1 2 3 4 using assms(3) by (simp add: 5 6)
qed

lemma before_ticks_body:
  "\<not> contains_ticks body \<Longrightarrow>
     contains_ticks (body @ NL # ticks @ post) \<and> before_ticks (body @ NL # ticks @ post) = body @ [NL]"
proof (induction body)
  case Nil
  then show ?case
    by simp
next
  case (Cons c cs)
  from Cons.prems have np: "\<not> prefix ticks (c # cs)" and nc: "\<not> contains_ticks cs"
    by auto
  have "\<not> prefix ticks ((c # cs) @ NL # ticks @ post)"
  proof
    assume p: "prefix ticks ((c # cs) @ NL # ticks @ post)"
    show False
    proof (cases cs)
      case Nil
      with p show False
        by simp
    next
      case (Cons d ds)
      with p np show False
        by (cases ds) auto
    qed
  qed
  with Cons.IH [OF nc] show ?case
    by simp
qed

section \<open>Properties of the fence scanner\<close>

lemma finditer_first_fence:
  assumes "\<not> contains_ticks pre" and "pre = [] \<or> last pre \<noteq> BT"
    and "fence_header hs = Some (tag, hint, n, rest)" and "contains_ticks rest"
  shows "finditer fence_re 0 (pre @ ticks @ hs) =
           \<lparr>m_start = length pre, m_end = length pre + 3 + n + length (before_ticks rest) + 3,
             m_group = (header_groups Map.empty tag hint)(3 \<mapsto> before_ticks rest)\<rparr> #
           finditer fence_re (length pre + 3 + n + length (before_ticks rest) + 3)
             (drop (length (before_ticks rest) + 3) rest)"
proof -
  let ?m = "\<lparr>m_start = length pre, m_end = length pre + 3 + n + length (before_ticks rest) + 3,
             m_group = (header_groups Map.empty tag hint)(3 \<mapsto> before_ticks rest)\<rparr>"
  have "match_at fence_re (length pre) (ticks @ hs) =
          Some (?m, drop (length (before_ticks rest) + 3) rest)"
    using assms(3,4) by (simp add: match_at_fence)
  then have "re_search fence_re (length pre) (ticks @ hs) =
          Some (?m, drop (length (before_ticks rest) + 3) rest)"
    by simp
  with re_search_fence_skip [OF assms(1,2), of 0 "ticks @ hs"]
  have "re_search fence_re 0 (pre @ ticks @ hs) = Some (?m, drop (length (before_ticks rest) + 3) rest)"
    by simp
  from finditer_Some [OF this] show ?thesis
    by simp
qed

text \<open>
  C1: a text with exactly one well-formed fence \<open>```lang:name.ext\<close>, newline, body, newline,
  \<open>```\<close> (no other three backticks before, inside or behind it, the tag made of tag
  characters, the hint non-empty, on one line and without blanks around it) yields exactly one
  block: language \<open>lang\<close>, hint \<open>name.ext\<close>, the body with the newline before the closer,
  and the number of the line on which the opening backticks stand.
\<close>

theorem single_fence_block:
  assumes "md_text = pre @ u ''```'' @ lang @ [COLON] @ name @ [NL] @ body @ [NL] @ u ''```'' @ post"
    and "\<not> contains_ticks pre" and "pre = [] \<or> last pre \<noteq> BT"
    and "\<forall>c\<in>set lang. is_tag_char c"
    and "name \<noteq> []" and "NL \<notin> set name" and "\<not> isspace (hd name)" and "\<not> isspace (last name)"
    and "\<not> contains_ticks body" and "\<not> contains_ticks post"
  shows "extract_code_blocks md_text =
           Inr [(lang, name, Some (body @ [NL]), int (length (filter (\<lambda>c. c = NL) pre)) + 1)]"
proof -
  let ?rest = "body @ NL # BT # BT # BT # post"
  let ?hs = "lang @ COLON # name @ NL # ?rest"
  have t: "md_text = pre @ ticks @ ?hs"
    using assms(1) by (simp add: u_ticks)
  have fh: "fence_header ?hs = Some (lang, Some name, length lang + 1 + length name + 1, ?rest)"
    using fence_header_hint [of "[]" lang name ?rest] assms(4,5,6) by simp
  from before_ticks_body [OF assms(9), of post]
  have ct: "contains_ticks ?rest" and bt: "before_ticks ?rest = body @ [NL]"
    by simp_all
  have dr: "drop (length (before_ticks ?rest) + 3) ?rest = post"
    unfolding bt by simp
  let ?m = "\<lparr>m_start = length pre,
             m_end = length pre + 3 + (length lang + 1 + length name + 1) + length (before_ticks ?rest) + 3,
             m_group = (header_groups Map.empty lang (Some name))(3 \<mapsto> before_ticks ?rest)\<rparr>"
  have "finditer fence_re 0 md_text = [?m]"
    unfolding t finditer_first_fence [OF assms(2,3) fh ct] dr
    by (simp add: finditer_fence_none [OF assms(10)])
  moreover have "take (length pre) md_text = pre"
    unfolding t by simp
  then have "block_of md_text ?m =
      (lang, name, Some (body @ [NL]), int (length (filter (\<lambda>c. c = NL) pre)) + 1)"
    using assms(5,7,8) strip_or_empty_tag [OF assms(4)]
    by (simp add: block_of_def header_groups_def bt strip_or_empty_def py_strip_id)
  ultimately show ?thesis
    by (simp add: extract_code_blocks_eq)
qed

theorem single_fence_block_witness:
  "extract_code_blocks (u ''intro\<newline>```py:a.py\<newline>x = 1\<newline>```\<newline>'') =
     Inr [(u ''py'', u ''a.py'', Some (u ''x = 1\<newline>''), 2)]"
proof -
  have 1: "u ''intro\<newline>```py:a.py\<newline>x = 1\<newline>```\<newline>'' =
      u ''intro\<newline>'' @ u ''```'' @ u ''py'' @ [COLON] @ u ''a.py'' @ [NL] @ u ''x = 1'' @ [NL] @ u ''```'' @ u ''\<newline>''"
    by (simp add: u_def)
  have 2: "\<not> contains_ticks (u ''intro\<newline>'')" "\<not> contains_ticks (u ''x = 1'')"
    "\<not> contains_ticks (u ''\<newline>'')"
    by code_simp+
  have 3: "u ''intro\<newline>'' = [] \<or> last (u ''intro\<newline>'') \<noteq> BT"
    by (simp add: u_def)
  have 4: "\<forall>c\<in>set (u ''py''). is_tag_char c"
    by (simp add: u_def is_tag_char_def)
  have 5: "u ''a.py'' \<noteq> []" "NL \<notin> set (u ''a.py'')" "\<not> isspace (hd (u ''a.py''))"
    "\<not> isspace (last (u ''a.py''))"
    by (simp_all add: u_def isspace_def)
  from single_fence_block [OF 1 2(1) 3 4 5 2(2,3)] show ?thesis
    by (simp add: u_def)
qed

text \<open>
  C9: for every input text both scanners return a list and raise nothing: every index into
  \<open>line_starts\<close> and \<open>lines\<close> is in range and every loop ends.
\<close>

theorem scanners_never_raise:
  "(\<exists>blocks. extract_code_blocks md_text = Inr blocks) \<and>
   (\<exists>tables. extract_tables md_text = Inr tables)"
  by (simp add: extract_code_blocks_eq extract_tables_eq)

theorem scanners_never_raise_witness:
  "extract_code_blocks (u ''```py\<newline>no closer'') = Inr [] \<and>
   extract_tables (u ''|---|\<newline>| only separators |'') = Inr [[[u ''only separators'']]] \<and>
   extract_tables (u ''|---|\<newline>|:-:|'') = Inr []"
proof -
  from scanners_never_raise [of "u ''```py\<newline>no closer''"]
  obtain blocks where "extract_code_blocks (u ''```py\<newline>no closer'') = Inr blocks"
    by blast
  moreover have "extract_code_blocks (u ''```py\<newline>no closer'') = Inr []"
    by code_simp
  moreover have "extract_tables (u ''|---|\<newline>| only separators |'') = Inr [[[u ''only separators'']]]"
    by code_simp
  moreover have "extract_tables (u ''|---|\<newline>|:-:|'') = Inr []"
    by code_simp
  ultimately show ?thesis
    by simp
qed

lemma contains_ticks_suffix: "suffix a b \<Longrightarrow> contains_ticks a \<Longrightarrow> contains_ticks b"
proof (induction b)
  case Nil
  then show ?case
    by simp
next
  case (Cons c cs)
  then show ?case
    by (auto simp: suffix_Cons)
qed

lemma fence_header_suffix:
  assumes "fence_header s = Some (tag, hint, n, rest)"
  shows "suffix rest s"
proof -
  define s1 where "s1 = dropWhile (\<lambda>c. c = SP \<or> c = TAB) s"
  define s2 where "s2 = dropWhile is_tag_char s1"
  have 1: "suffix s1 s" "suffix s2 s1"
    unfolding s1_def s2_def by (rule suffix_dropWhile)+
  from assms obtain c s3 where s2: "s2 = c # s3"
    unfolding fence_header_def Let_def s2_def s1_def by (auto split: list.splits)
  then have 3: "suffix s3 s2"
    by (simp add: suffix_ConsI)
  have "suffix rest s3"
  proof (cases "c = NL")
    case True
    with assms s2 show ?thesis
      unfolding fence_header_def Let_def s2_def s1_def by simp
  next
    case False
    with assms s2 obtain d where "dropWhile (\<lambda>c. c \<noteq> NL) s3 = d # rest"
      unfolding fence_header_def Let_def s2_def s1_def by (auto split: list.splits if_splits)
    then have "suffix (d # rest) s3"
      by (metis suffix_dropWhile)
    then show ?thesis
      by (rule suffix_ConsD)
  qed
  with 1 3 show ?thesis
    by (meson suffix_order.trans)
qed

lemma match_at_fence_closer:
  assumes "match_at fence_re i s = Some (m, s')"
  shows "prefix ticks s \<and> contains_ticks (drop 3 s)"
proof -
  from assms have p: "prefix ticks s"
    by (simp add: match_at_fence split: if_splits)
  with assms obtain tag hint n rest where h: "fence_header (drop 3 s) = Some (tag, hint, n, rest)"
    and c: "contains_ticks rest"
    by (auto simp: match_at_fence split: option.splits if_splits)
  from contains_ticks_suffix [OF fence_header_suffix [OF h] c] p show ?thesis
    by simp
qed




text \<open>
  C3, as the code has it: every reported block comes from a match of the fence pattern that
  starts with three backticks at some offset of the text, at the beginning of a line or in the
  middle of one, and its line number is the number of the line that holds this offset. The
  pattern has no anchor: an input of \<open>x ```\<close>, newline, \<open>code\<close>, newline, \<open>```\<close> yields
  a block whose backticks stand at offset 2 of the first line.
\<close>

theorem block_opens_at_backticks:
  assumes "extract_code_blocks md_text = Inr blocks" and "n < length blocks"
  shows "\<exists>off m s'. off + 3 \<le> length md_text \<and> take 3 (drop off md_text) = u ''```'' \<and>
           match_at fence_re off (drop off md_text) = Some (m, s') \<and> m_start m = off \<and>
           blocks ! n = (strip_or_empty (m_group m 1), strip_or_empty (m_group m 2), m_group m 3,
                         int (length (filter (\<lambda>c. c = NL) (take off md_text))) + 1)"
proof -
  from assms have b: "blocks = map (block_of md_text) (finditer fence_re 0 md_text)"
    by (simp add: extract_code_blocks_eq)
  with assms(2) have n: "n < length (finditer fence_re 0 md_text)"
    by simp
  let ?m = "finditer fence_re 0 md_text ! n"
  from n have "?m \<in> set (finditer fence_re 0 md_text)"
    by simp
  from finditer_match [OF this] obtain k s' where k: "k \<le> length md_text" "m_start ?m = k"
    "match_at fence_re k (drop k md_text) = Some (?m, s')"
    by auto
  from match_at_fence_closer [OF k(3)] have p: "prefix ticks (drop k md_text)"
    by simp
  then obtain r where r: "drop k md_text = ticks @ r"
    by (auto simp: prefix_def)
  then have "length (drop k md_text) \<ge> 3"
    by simp
  then have 1: "k + 3 \<le> length md_text"
    by simp
  from r have 2: "take 3 (drop k md_text) = u ''```''"
    by (simp add: u_ticks)
  from b n k(2) have 3: "blocks ! n = (strip_or_empty (m_group ?m 1), strip_or_empty (m_group ?m 2),
      m_group ?m 3, int (length (filter (\<lambda>c. c = NL) (take k md_text))) + 1)"
    by (simp add: block_of_def)
  from 1 2 3 k show ?thesis
    by blast
qed

theorem block_opens_at_backticks_witness:
  "extract_code_blocks (u ''say ```\<newline>x\<newline>``` ok'') = Inr [([], [], Some (u ''x\<newline>''), 1)] \<and>
   (\<exists>off m s'. off + 3 \<le> length (u ''say ```\<newline>x\<newline>``` ok'') \<and>
      take 3 (drop off (u ''say ```\<newline>x\<newline>``` ok'')) = u ''```'' \<and>
      match_at fence_re off (drop off (u ''say ```\<newline>x\<newline>``` ok'')) = Some (m, s') \<and> m_start m = off \<and>
      [([], [], Some (u ''x\<newline>''), 1)] ! 0 =
        (strip_or_empty (m_group m 1), strip_or_empty (m_group m 2), m_group m 3,
         int (length (filter (\<lambda>c. c = NL) (take off (u ''say ```\<newline>x\<newline>``` ok'')))) + 1))"
proof -
  have e: "extract_code_blocks (u ''say ```\<newline>x\<newline>``` ok'') = Inr [([], [], Some (u ''x\<newline>''), 1)]"
    by code_simp
  from block_opens_at_backticks [OF e, of 0] e show ?thesis
    by simp
qed

theorem fence_in_mid_line_counterexample:
  "extract_code_blocks (u ''x ```\<newline>code\<newline>```'') = Inr [([], [], Some (u ''code\<newline>''), 1)] \<and>
   map m_start (finditer fence_re 0 (u ''x ```\<newline>code\<newline>```'')) = [2] \<and>
   (2::nat) \<noteq> 0 \<and> u ''x ```\<newline>code\<newline>```'' ! (2 - 1) \<noteq> NL"
  by code_simp

section \<open>Properties of runs, separators and cells\<close>

lemma scan_lines_single_noncandidate: "\<not> candidate l \<Longrightarrow> scan_lines [l] = []"
  by simp

text \<open>
  C7: let the lines of the text be \<open>A @ R @ B\<close> with \<open>R\<close> a maximal run of candidate lines
  (no candidate line directly before or behind it). Then the inner loop started at the first
  line of \<open>R\<close> collects exactly the lines of \<open>R\<close> and leaves the scan pointer just behind
  the run; the result is what the lines of \<open>A\<close> alone yield, then the grid of \<open>R\<close> (if any
  row survives), then what the lines of \<open>B\<close> alone yield, so no grid draws on lines of two
  runs; and a second run \<open>R2\<close> that a blank or other non-candidate line \<open>sep\<close> separates from
  \<open>R\<close> yields its own grid behind that of \<open>R\<close>.
\<close>

theorem one_grid_per_maximal_run:
  assumes "splitlines md_text = A @ R @ B" and "R \<noteq> []" and "\<forall>l\<in>set R. candidate l"
    and "A = [] \<or> \<not> candidate (last A)" and "B = [] \<or> \<not> candidate (hd B)"
  shows "\<exists>ta tb. scan_loop A 0 [] = Inr ta \<and> scan_loop B 0 [] = Inr tb \<and>
           run_loop (splitlines md_text) (length A) [] = Inr (length A + length R, map py_strip R) \<and>
           extract_tables md_text = Inr (ta @ grid_of_run R @ tb) \<and>
           (\<forall>sep R2 B2. B = sep # R2 @ B2 \<and> R2 \<noteq> [] \<and> (\<forall>l\<in>set R2. candidate l) \<and>
                         (B2 = [] \<or> \<not> candidate (hd B2))
              \<longrightarrow> (\<exists>tb2. scan_loop B2 0 [] = Inr tb2 \<and> tb = grid_of_run R2 @ tb2))"
proof -
  have run: "run_loop (splitlines md_text) (length A) [] = Inr (length A + length R, map py_strip R)"
  proof -
    have "takeWhile candidate (R @ B) = R"
      using assms(3,5) by (rule takeWhile_all_append)
    then have "takeWhile candidate (drop (length A) (A @ R @ B)) = R"
      by simp
    with run_loop_eq [of "length A" "A @ R @ B" "[]"] show ?thesis
      unfolding assms(1) by simp
  qed
  have dec: "extract_tables md_text = Inr (scan_lines A @ grid_of_run R @ scan_lines B)"
    unfolding extract_tables_eq assms(1) scan_lines_decompose [OF assms(2-5)] ..
  have two: "\<forall>sep R2 B2. B = sep # R2 @ B2 \<and> R2 \<noteq> [] \<and> (\<forall>l\<in>set R2. candidate l) \<and>
                         (B2 = [] \<or> \<not> candidate (hd B2))
              \<longrightarrow> (\<exists>tb2. scan_loop B2 0 [] = Inr tb2 \<and> scan_lines B = grid_of_run R2 @ tb2)"
  proof (intro allI impI)
    fix sep R2 B2
    assume b: "B = sep # R2 @ B2 \<and> R2 \<noteq> [] \<and> (\<forall>l\<in>set R2. candidate l) \<and>
                 (B2 = [] \<or> \<not> candidate (hd B2))"
    with assms(5) have ns: "\<not> candidate sep"
      by auto
    from b have "scan_lines ([sep] @ R2 @ B2) = scan_lines [sep] @ grid_of_run R2 @ scan_lines B2"
      using ns by (intro scan_lines_decompose) simp_all
    with b ns have "scan_lines B = grid_of_run R2 @ scan_lines B2"
      by simp
    then show "\<exists>tb2. scan_loop B2 0 [] = Inr tb2 \<and> scan_lines B = grid_of_run R2 @ tb2"
      by (simp add: scan_loop_0)
  qed
  from run dec two show ?thesis
    by (simp add: scan_loop_0)
qed

theorem one_grid_per_maximal_run_witness:
  "extract_tables (u ''intro\<newline>| a |\<newline>| b |\<newline>\<newline>| c |\<newline>end'') =
     Inr [[[u ''a''], [u ''b'']], [[u ''c'']]] \<and>
   run_loop (splitlines (u ''intro\<newline>| a |\<newline>| b |\<newline>\<newline>| c |\<newline>end'')) 1 [] =
     Inr (3, [u ''| a |'', u ''| b |''])"
proof -
  let ?t = "u ''intro\<newline>| a |\<newline>| b |\<newline>\<newline>| c |\<newline>end''"
  let ?A = "[u ''intro'']" and ?R = "[u ''| a |'', u ''| b |'']" and ?B = "[[], u ''| c |'', u ''end'']"
  have 1: "splitlines ?t = ?A @ ?R @ ?B"
    by code_simp
  have 2: "?R \<noteq> []" "\<forall>l\<in>set ?R. candidate l" "?A = [] \<or> \<not> candidate (last ?A)"
    "?B = [] \<or> \<not> candidate (hd ?B)"
    by code_simp+
  have 3: "?B = [] # [u ''| c |''] @ [u ''end''] \<and> [u ''| c |''] \<noteq> [] \<and>
     (\<forall>l\<in>set [u ''| c |'']. candidate l) \<and> ([u ''end''] = [] \<or> \<not> candidate (hd [u ''end'']))"
    by code_simp
  from one_grid_per_maximal_run [OF 1 2] obtain ta tb where
    r: "scan_loop ?A 0 [] = Inr ta" "scan_loop ?B 0 [] = Inr tb"
      "run_loop (splitlines ?t) (length ?A) [] = Inr (length ?A + length ?R, map py_strip ?R)"
      "extract_tables ?t = Inr (ta @ grid_of_run ?R @ tb)"
      "\<forall>sep R2 B2. ?B = sep # R2 @ B2 \<and> R2 \<noteq> [] \<and> (\<forall>l\<in>set R2. candidate l) \<and>
                         (B2 = [] \<or> \<not> candidate (hd B2))
              \<longrightarrow> (\<exists>tb2. scan_loop B2 0 [] = Inr tb2 \<and> tb = grid_of_run R2 @ tb2)"
    by blast
  from r(5) 3 obtain tb2 where tb2: "scan_loop [u ''end''] 0 [] = Inr tb2" "tb = grid_of_run [u ''| c |''] @ tb2"
    by blast
  have e: "scan_loop ?A 0 [] = Inr []" "scan_loop [u ''end''] 0 [] = Inr []"
    "grid_of_run ?R = [[[u ''a''], [u ''b'']]]" "grid_of_run [u ''| c |''] = [[[u ''c'']]]"
    "map py_strip ?R = [u ''| a |'', u ''| b |'']"
    by code_simp+
  from r(1,3,4) tb2 e show ?thesis
    by simp
qed

lemma bt_Cat_mem: "x \<in> set (bt (Cat r1 r2) st) \<longleftrightarrow> (\<exists>y\<in>set (bt r1 st). x \<in> set (bt r2 y))"
  by simp

lemma comprehension_filter: "[f r. r \<leftarrow> xs, P r] = map f (filter P xs)"
  by (induction xs) auto

lemma bt_Star_consumed:
  assumes "(i', s', g') \<in> set (bt (Star P m) (i, s, g))"
  shows "\<exists>c. s = c @ s' \<and> (\<forall>x\<in>set c. P x) \<and> g' = g"
proof -
  from assms have "(i', s', g') \<in> (\<lambda>j. (i + j, drop j s, g)) ` set (rev [m ..< Suc (length (takeWhile P s))])"
    by (simp only: bt.simps set_map)
  then obtain j where "j \<in> set (rev [m ..< Suc (length (takeWhile P s))])"
    and "(i', s', g') = (i + j, drop j s, g)"
    by (rule imageE)
  then have j: "j < Suc (length (takeWhile P s))" "s' = drop j s" "g' = g"
    by (simp_all del: upt_Suc)
  have "take j s = take j (takeWhile P s @ dropWhile P s)"
    by simp
  also have "\<dots> = take j (takeWhile P s) @ take (j - length (takeWhile P s)) (dropWhile P s)"
    by (rule take_append)
  also have "\<dots> = take j (takeWhile P s)"
    using j(1) by simp
  finally have "take j s = take j (takeWhile P s)" .
  then have "\<forall>x\<in>set (take j s). P x"
    by (metis in_set_takeD set_takeWhileD)
  with j show ?thesis
    by (intro exI [of _ "take j s"]) simp
qed

lemma bt_Opt_Lit_consumed:
  assumes "(i', s', g') \<in> set (bt (Opt (Lit w)) (i, s, g))"
  shows "(s = s' \<or> s = w @ s') \<and> g' = g"
  using assms by (auto simp: prefix_def split: if_splits)

lemma sep_re_sound:
  assumes "re_match sep_re r"
  shows "separator_like r"
proof -
  from assms obtain st where "st \<in> set (bt sep_re (0, r, Map.empty))"
    by (auto simp: re_match_def match_at_def split: list.splits)
  then obtain s1 s2 s3 s4 s5 s6 where
    1: "s1 \<in> set (bt Bos (0, r, Map.empty))" and
    2: "s2 \<in> set (bt (Star isspace 0) s1)" and
    3: "s3 \<in> set (bt (Opt (Lit [PIPE])) s2)" and
    4: "s4 \<in> set (bt (Star sep_char 1) s3)" and
    5: "s5 \<in> set (bt (Opt (Lit [PIPE])) s4)" and
    6: "s6 \<in> set (bt (Star isspace 0) s5)" and
    7: "st \<in> set (bt Eos s6)"
    unfolding sep_re_def bt_Cat_mem by blast
  from 1 have s1: "s1 = (0, r, Map.empty)"
    by simp
  obtain i2 r2 g2 where s2: "s2 = (i2, r2, g2)" by (cases s2)
  obtain i3 r3 g3 where s3: "s3 = (i3, r3, g3)" by (cases s3)
  obtain i4 r4 g4 where s4: "s4 = (i4, r4, g4)" by (cases s4)
  obtain i5 r5 g5 where s5: "s5 = (i5, r5, g5)" by (cases s5)
  obtain i6 r6 g6 where s6: "s6 = (i6, r6, g6)" by (cases s6)
  from bt_Star_consumed [OF 2 [unfolded s1 s2]] obtain c1 where c1: "r = c1 @ r2" "\<forall>x\<in>set c1. isspace x"
    by blast
  from bt_Opt_Lit_consumed [OF 3 [unfolded s2 s3]] have c2: "r2 = r3 \<or> r2 = [PIPE] @ r3"
    by blast
  from bt_Star_consumed [OF 4 [unfolded s3 s4]] obtain c3 where c3: "r3 = c3 @ r4" "\<forall>x\<in>set c3. sep_char x"
    by blast
  from bt_Opt_Lit_consumed [OF 5 [unfolded s4 s5]] have c4: "r4 = r5 \<or> r4 = [PIPE] @ r5"
    by blast
  from bt_Star_consumed [OF 6 [unfolded s5 s6]] obtain c5 where c5: "r5 = c5 @ r6" "\<forall>x\<in>set c5. isspace x"
    by blast
  from 7 s6 have c6: "r6 = [] \<or> r6 = [NL]"
    by (auto split: if_splits)
  have nl: "isspace NL"
    by (simp add: isspace_def)
  from c6 nl have "\<forall>x\<in>set r6. sep_char x"
    by auto
  with c5 have "\<forall>x\<in>set r5. sep_char x"
    by auto
  with c4 have "\<forall>x\<in>set r4. sep_char x"
    by auto
  with c3 have "\<forall>x\<in>set r3. sep_char x"
    by auto
  with c2 have "\<forall>x\<in>set r2. sep_char x"
    by auto
  with c1 have "\<forall>x\<in>set r. sep_char x"
    by auto
  then show ?thesis
    by (simp add: separator_like_def)
qed

lemma sep_re_complete:
  assumes "separator_like r" and "r \<noteq> []"
  shows "re_match sep_re r"
proof -
  let ?g = "Map.empty :: caps"
  from assms(1) have tw: "takeWhile sep_char r = r"
    by (simp add: separator_like_def)
  have 1: "(0, r, ?g) \<in> set (bt Bos (0, r, ?g))"
    by simp
  have 2: "(0, r, ?g) \<in> set (bt (Star isspace 0) (0, r, ?g))"
    by (auto intro!: image_eqI [where x = 0])
  have 3: "(0, r, ?g) \<in> set (bt (Opt (Lit [PIPE])) (0, r, ?g))"
    by simp
  have 4: "(length r, [], ?g) \<in> set (bt (Star sep_char 1) (0, r, ?g))"
    using assms(2) unfolding bt.simps tw by (auto intro!: image_eqI [where x = "length r"] simp: Suc_le_eq)
  have 5: "(length r, [], ?g) \<in> set (bt (Opt (Lit [PIPE])) (length r, [], ?g))"
    by simp
  have 6: "(length r, [], ?g) \<in> set (bt (Star isspace 0) (length r, [], ?g))"
    by simp
  have 7: "(length r, [], ?g) \<in> set (bt Eos (length r, [], ?g))"
    by simp
  have "(length r, [], ?g) \<in> set (bt sep_re (0, r, ?g))"
    unfolding sep_re_def bt_Cat_mem using 1 2 3 4 5 6 7 by blast
  then show ?thesis
    by (auto simp: re_match_def match_at_def split: list.splits)
qed

lemma re_match_sep_re: "r \<noteq> [] \<Longrightarrow> re_match sep_re r = separator_like r"
  using sep_re_sound sep_re_complete by blast

lemma candidate_nonempty: "candidate l \<Longrightarrow> py_strip l \<noteq> []"
  by (auto simp: candidate_def startswith_def)

lemma table_rows_separator_like:
  assumes "\<forall>l\<in>set R. candidate l"
  shows "table_rows (map py_strip R) = [row_cells r. r \<leftarrow> map py_strip R, \<not> separator_like r]"
proof -
  have "filter (\<lambda>r. \<not> re_match sep_re r) (map py_strip R) =
        filter (\<lambda>r. \<not> separator_like r) (map py_strip R)"
    by (rule filter_cong) (use assms in \<open>auto simp: re_match_sep_re candidate_nonempty\<close>)
  then show ?thesis
    unfolding table_rows_def comprehension_filter by (rule arg_cong)
qed

text \<open>
  C4: for a maximal run \<open>R\<close>, the rows of its grid are the cell lists of exactly those
  lines of the run whose trimmed content is not separator-like, in their order, wherever the
  separator-like lines stand in the run; and a run in which every line is separator-like adds
  no grid to the result.
\<close>

theorem separator_lines_dropped:
  assumes "splitlines md_text = A @ R @ B" and "R \<noteq> []" and "\<forall>l\<in>set R. candidate l"
    and "A = [] \<or> \<not> candidate (last A)" and "B = [] \<or> \<not> candidate (hd B)"
  shows "\<exists>ta tb. scan_loop A 0 [] = Inr ta \<and> scan_loop B 0 [] = Inr tb \<and>
           extract_tables md_text =
             Inr (ta @ (let rows = [row_cells r. r \<leftarrow> map py_strip R, \<not> separator_like r]
                        in if rows \<noteq> [] then [rows] else []) @ tb) \<and>
           ((\<forall>l\<in>set R. separator_like (py_strip l)) \<longrightarrow> extract_tables md_text = Inr (ta @ tb))"
proof -
  define rows where "rows = [row_cells r. r \<leftarrow> map py_strip R, \<not> separator_like r]"
  have g: "grid_of_run R = (if rows \<noteq> [] then [rows] else [])"
    unfolding grid_of_run_def table_rows_separator_like [OF assms(3)] rows_def Let_def ..
  have dec: "extract_tables md_text = Inr (scan_lines A @ grid_of_run R @ scan_lines B)"
    unfolding extract_tables_eq assms(1) scan_lines_decompose [OF assms(2-5)] ..
  have e: "(\<forall>l\<in>set R. separator_like (py_strip l)) \<longrightarrow> rows = []"
    unfolding rows_def comprehension_filter by (auto simp: filter_empty_conv)
  have "scan_loop A 0 [] = Inr (scan_lines A) \<and> scan_loop B 0 [] = Inr (scan_lines B) \<and>
        extract_tables md_text =
          Inr (scan_lines A @ (if rows \<noteq> [] then [rows] else []) @ scan_lines B) \<and>
        ((\<forall>l\<in>set R. separator_like (py_strip l)) \<longrightarrow>
            extract_tables md_text = Inr (scan_lines A @ scan_lines B))"
    using dec e unfolding g by (simp add: scan_loop_0)
  then show ?thesis
    unfolding Let_def rows_def by blast
qed

theorem separator_lines_dropped_witness:
  "extract_tables (u ''x\<newline>|:--|\<newline>| A | B |\<newline>|---|---|\<newline>| 1 | 2 |\<newline>| - | : |\<newline>\<newline>|--|\<newline>||'') =
     Inr [[[u ''A'', u ''B''], [u ''1'', u ''2'']]]"
proof -
  let ?t = "u ''x\<newline>|:--|\<newline>| A | B |\<newline>|---|---|\<newline>| 1 | 2 |\<newline>| - | : |\<newline>\<newline>|--|\<newline>||''"
  let ?A = "[u ''x'']"
  let ?R = "[u ''|:--|'', u ''| A | B |'', u ''|---|---|'', u ''| 1 | 2 |'', u ''| - | : |'']"
  let ?B = "[[], u ''|--|'', u ''||'']"
  have 1: "splitlines ?t = ?A @ ?R @ ?B"
    by code_simp
  have 2: "?R \<noteq> []" "\<forall>l\<in>set ?R. candidate l" "?A = [] \<or> \<not> candidate (last ?A)"
    "?B = [] \<or> \<not> candidate (hd ?B)"
    by code_simp+
  from separator_lines_dropped [OF 1 2] obtain ta tb where
    r: "scan_loop ?A 0 [] = Inr ta" "scan_loop ?B 0 [] = Inr tb"
       "extract_tables ?t =
             Inr (ta @ (let rows = [row_cells r. r \<leftarrow> map py_strip ?R, \<not> separator_like r]
                        in if rows \<noteq> [] then [rows] else []) @ tb)"
    by blast
  have e: "scan_loop ?A 0 [] = Inr []" "scan_loop ?B 0 [] = Inr []"
    by code_simp+
  have rows: "[row_cells r. r \<leftarrow> map py_strip ?R, \<not> separator_like r] = [[u ''A'', u ''B''], [u ''1'', u ''2'']]"
    by code_simp
  from r e show ?thesis
    unfolding rows by simp
qed

lemma py_strip_chars_pipe_Cons: "py_strip_chars [PIPE] (PIPE # r) = py_strip_chars [PIPE] r"
  by (simp add: py_strip_chars_def)

lemma py_strip_chars_pipe_snoc:
  assumes "r = [] \<or> hd r \<noteq> PIPE"
  shows "py_strip_chars [PIPE] (r @ [PIPE]) = py_strip_chars [PIPE] r"
proof -
  from assms have 1: "dropWhile (\<lambda>c. c \<in> set [PIPE]) (r @ [PIPE]) = (if r = [] then [] else r @ [PIPE])"
    by (cases r) auto
  from assms have 2: "dropWhile (\<lambda>c. c \<in> set [PIPE]) r = r"
    by (cases r) auto
  show ?thesis
    unfolding py_strip_chars_def 1 2 by (cases "r = []") simp_all
qed

lemma py_strip_chars_pipe_id:
  assumes "r = [] \<or> (hd r \<noteq> PIPE \<and> last r \<noteq> PIPE)"
  shows "py_strip_chars [PIPE] r = r"
proof (cases "r = []")
  case True
  then show ?thesis
    by (simp add: py_strip_chars_def)
next
  case False
  with assms have "dropWhile (\<lambda>c. c \<in> set [PIPE]) r = r"
    by (cases r) auto
  moreover from False assms have "dropWhile (\<lambda>c. c \<in> set [PIPE]) (rev r) = rev r"
    by (cases "rev r") (auto simp: hd_rev)
  ultimately show ?thesis
    by (simp add: py_strip_chars_def)
qed

lemma strip_all_pipes_eq: "strip_all_pipes r = py_strip_chars [PIPE] r"
proof (induction r rule: strip_all_pipes.induct)
  case (1 r)
  show ?case
  proof (cases "r \<noteq> [] \<and> hd r = PIPE")
    case True
    then have r: "r = PIPE # tl r"
      by (cases r) auto
    from True have "strip_all_pipes r = strip_all_pipes (tl r)"
      by (subst strip_all_pipes.simps) simp
    also have "\<dots> = py_strip_chars [PIPE] (tl r)"
      using "1.IH"(1) [OF True] .
    also have "\<dots> = py_strip_chars [PIPE] r"
      by (subst (2) r) (simp only: py_strip_chars_pipe_Cons)
    finally show ?thesis .
  next
    case nh: False
    show ?thesis
    proof (cases "r \<noteq> [] \<and> last r = PIPE")
      case True
      then have r: "r = butlast r @ [PIPE]"
        by (metis append_butlast_last_id)
      from nh True have h: "butlast r = [] \<or> hd (butlast r) \<noteq> PIPE"
        by (cases r) (auto split: if_splits)
      from nh True have "strip_all_pipes r = strip_all_pipes (butlast r)"
        by (subst strip_all_pipes.simps) simp
      also have "\<dots> = py_strip_chars [PIPE] (butlast r)"
        using "1.IH"(2) [OF nh True] .
      also have "\<dots> = py_strip_chars [PIPE] r"
        by (subst (2) r) (simp only: py_strip_chars_pipe_snoc [OF h])
      finally show ?thesis .
    next
      case False
      have "strip_all_pipes r = r"
        by (subst strip_all_pipes.simps) (simp only: nh False if_False)
      moreover from nh False have "py_strip_chars [PIPE] r = r"
        by (intro py_strip_chars_pipe_id) auto
      ultimately show ?thesis
        by simp
    qed
  qed
qed

lemma single_edge_pipes_core:
  assumes "single_edge_pipes r"
  shows "r = PIPE # butlast (tl r) @ [PIPE] \<and>
         (butlast (tl r) = [] \<or> (hd (butlast (tl r)) \<noteq> PIPE \<and> last (butlast (tl r)) \<noteq> PIPE))"
proof -
  from assms obtain a r' where r: "r = a # r'" and "r' \<noteq> []"
    unfolding single_edge_pipes_def by (cases r) (auto simp: Suc_le_eq)
  with assms have "a = PIPE" "last r' = PIPE"
    unfolding single_edge_pipes_def by auto
  with r \<open>r' \<noteq> []\<close> have "r = PIPE # butlast (tl r) @ [PIPE]"
    by (metis append_butlast_last_id list.sel(3))
  with assms show ?thesis
    unfolding single_edge_pipes_def Let_def by blast
qed

lemma single_edge_pipes_strip:
  assumes "single_edge_pipes r"
  shows "py_strip_chars [PIPE] r = butlast (tl r)" and "strip_one_pipe r = butlast (tl r)"
proof -
  let ?core = "butlast (tl r)"
  from single_edge_pipes_core [OF assms]
  have r: "r = PIPE # ?core @ [PIPE]" and c: "?core = [] \<or> (hd ?core \<noteq> PIPE \<and> last ?core \<noteq> PIPE)"
    by simp_all
  from c have "?core = [] \<or> hd ?core \<noteq> PIPE"
    by blast
  then have "py_strip_chars [PIPE] (PIPE # ?core @ [PIPE]) = py_strip_chars [PIPE] ?core"
    by (simp only: py_strip_chars_pipe_Cons py_strip_chars_pipe_snoc)
  also have "\<dots> = ?core"
    using c by (rule py_strip_chars_pipe_id)
  finally show "py_strip_chars [PIPE] r = ?core"
    using r by simp
  have "strip_one_pipe (PIPE # ?core @ [PIPE]) = ?core"
    by (simp add: strip_one_pipe_def)
  with r show "strip_one_pipe r = ?core"
    by simp
qed

text \<open>
  C5, as the code has it: \<open>r.strip("|")\<close> removes all leading and all trailing \<open>|\<close> of
  the trimmed line, not one of each; the rest is split on \<open>|\<close> and every cell trimmed. For a
  line with exactly one \<open>|\<close> at each end this is the split the specification describes.
  The line \<open>||a||\<close> gives the one cell \<open>a\<close>, where removing one \<open>|\<close> at each end would
  give an empty cell before and behind it.
\<close>

theorem cells_strip_all_pipes:
  assumes "splitlines md_text = A @ R @ B" and "R \<noteq> []" and "\<forall>l\<in>set R. candidate l"
    and "A = [] \<or> \<not> candidate (last A)" and "B = [] \<or> \<not> candidate (hd B)"
  shows "\<exists>ta tb. scan_loop A 0 [] = Inr ta \<and> scan_loop B 0 [] = Inr tb \<and>
           extract_tables md_text =
             Inr (ta @ (let rows = [map py_strip (py_split PIPE (strip_all_pipes r)).
                                      r \<leftarrow> map py_strip R, \<not> re_match sep_re r]
                        in if rows \<noteq> [] then [rows] else []) @ tb) \<and>
           (\<forall>l\<in>set R. single_edge_pipes (py_strip l) \<longrightarrow>
              map py_strip (py_split PIPE (strip_all_pipes (py_strip l))) = cells_strip_one (py_strip l))"
proof -
  have rc: "map py_strip (py_split PIPE (strip_all_pipes r)) = row_cells r" for r
    by (simp add: row_cells_def strip_all_pipes_eq)
  have g: "grid_of_run R =
      (let rows = [map py_strip (py_split PIPE (strip_all_pipes r)). r \<leftarrow> map py_strip R, \<not> re_match sep_re r]
       in if rows \<noteq> [] then [rows] else [])"
    unfolding grid_of_run_def table_rows_def rc ..
  have dec: "extract_tables md_text = Inr (scan_lines A @ grid_of_run R @ scan_lines B)"
    unfolding extract_tables_eq assms(1) scan_lines_decompose [OF assms(2-5)] ..
  have one: "\<forall>l\<in>set R. single_edge_pipes (py_strip l) \<longrightarrow>
      map py_strip (py_split PIPE (strip_all_pipes (py_strip l))) = cells_strip_one (py_strip l)"
    by (simp add: cells_strip_one_def strip_all_pipes_eq single_edge_pipes_strip)
  from dec one show ?thesis
    unfolding g by (auto simp: scan_loop_0)
qed

theorem cells_strip_all_pipes_witness:
  "extract_tables (u ''| A || B |\<newline>||x||'') = Inr [[[u ''A'', [], u ''B''], [u ''x'']]] \<and>
   cells_strip_one (u ''| A || B |'') = [u ''A'', [], u ''B'']"
proof -
  let ?t = "u ''| A || B |\<newline>||x||''"
  let ?R = "[u ''| A || B |'', u ''||x||'']"
  have 1: "splitlines ?t = [] @ ?R @ []"
    by code_simp
  have 2: "?R \<noteq> []" "\<forall>l\<in>set ?R. candidate l" "([] :: ustring list) = [] \<or> \<not> candidate (last [])"
    "([] :: ustring list) = [] \<or> \<not> candidate (hd [])"
    by code_simp+
  from cells_strip_all_pipes [OF 1 2] obtain ta tb where
    r: "scan_loop [] 0 [] = Inr ta" "scan_loop [] 0 [] = Inr tb"
       "extract_tables ?t =
             Inr (ta @ (let rows = [map py_strip (py_split PIPE (strip_all_pipes r)).
                                      r \<leftarrow> map py_strip ?R, \<not> re_match sep_re r]
                        in if rows \<noteq> [] then [rows] else []) @ tb)"
       "\<forall>l\<in>set ?R. single_edge_pipes (py_strip l) \<longrightarrow>
              map py_strip (py_split PIPE (strip_all_pipes (py_strip l))) = cells_strip_one (py_strip l)"
    by blast
  have e: "scan_loop [] 0 [] = Inr []"
    by code_simp
  have rows: "[map py_strip (py_split PIPE (strip_all_pipes r)). r \<leftarrow> map py_strip ?R, \<not> re_match sep_re r] =
      [[u ''A'', [], u ''B''], [u ''x'']]"
    by code_simp
  have s: "single_edge_pipes (py_strip (u ''| A || B |''))"
    "map py_strip (py_split PIPE (strip_all_pipes (py_strip (u ''| A || B |'')))) = [u ''A'', [], u ''B'']"
    "py_strip (u ''| A || B |'') = u ''| A || B |''"
    by code_simp+
  from r(4) s have "cells_strip_one (u ''| A || B |'') = [u ''A'', [], u ''B'']"
    by simp
  with r(1,2,3) e show ?thesis
    unfolding rows by simp
qed

theorem strip_exactly_one_pipe_counterexample:
  "splitlines (u ''||a||'') = [u ''||a||''] \<and>
   extract_tables (u ''||a||'') = Inr [[[u ''a'']]] \<and>
   cells_strip_one (py_strip (u ''||a||'')) = [[], u ''a'', []] \<and>
   [u ''a''] \<noteq> cells_strip_one (py_strip (u ''||a||''))"
  by code_simp

lemma squash_append: "squash (a @ b) = squash a @ squash b"
  by (simp add: squash_def)

lemma squash_Nil: "squash [] = []"
  by (simp add: squash_def)

lemma squash_Cons_pipe: "squash (PIPE # s) = PIPE # squash s"
  by (simp add: squash_def isspace_def)

lemma squash_dropWhile: "squash (dropWhile isspace s) = squash s"
  by (induction s) (auto simp: squash_def)

lemma squash_rev: "squash (rev s) = rev (squash s)"
  by (simp add: squash_def rev_filter)

lemma squash_strip: "squash (py_strip s) = squash s"
proof -
  have "squash (py_strip s) = rev (squash (dropWhile isspace (rev (dropWhile isspace s))))"
    by (simp only: py_strip_def squash_rev)
  also have "\<dots> = rev (squash (rev (dropWhile isspace s)))"
    by (simp only: squash_dropWhile)
  also have "\<dots> = squash (dropWhile isspace s)"
    by (simp only: squash_rev rev_rev_ident)
  finally show ?thesis
    by (simp only: squash_dropWhile)
qed

lemma squash_join: "squash (py_join sep xs) = py_join (squash sep) (map squash xs)"
  by (induction sep xs rule: py_join.induct) (simp_all add: squash_append squash_Nil)

lemma squash_sep: "squash (u '' | '') = [PIPE]" and squash_pipe: "squash [PIPE] = [PIPE]"
  by (simp_all add: squash_def u_def isspace_def)

lemma join_split: "py_join [sep] (py_split sep s) = s"
proof (induction sep s rule: py_split.induct)
  case (1 sep s)
  define piece where "piece = takeWhile (\<lambda>c. c \<noteq> sep) s"
  define rest where "rest = dropWhile (\<lambda>c. c \<noteq> sep) s"
  have s: "s = piece @ rest"
    by (simp add: piece_def rest_def)
  show ?case
  proof (cases rest)
    case Nil
    then have "py_split sep s = [piece]"
      by (subst py_split.simps) (simp add: Let_def flip: piece_def rest_def)
    with s Nil show ?thesis
      by simp
  next
    case (Cons c rest')
    then have c: "c = sep"
      using hd_dropWhile [of "\<lambda>c. c \<noteq> sep" s] by (simp add: rest_def)
    from Cons have sp: "py_split sep s = piece # py_split sep rest'"
      by (subst py_split.simps) (simp add: Let_def flip: piece_def rest_def)
    from "1.IH" [OF piece_def rest_def Cons] have ih: "py_join [sep] (py_split sep rest') = rest'"
      by simp
    obtain y ys where ne: "py_split sep rest' = y # ys"
      using py_split_nonempty [of sep rest'] by (cases "py_split sep rest'") auto
    from sp ne ih have "py_join [sep] (py_split sep s) = piece @ [sep] @ rest'"
      by simp
    with s Cons c show ?thesis
      by simp
  qed
qed

lemma rejoin_row_cells:
  "squash (rejoin (row_cells r)) = squash (PIPE # py_strip_chars [PIPE] r @ [PIPE])"
proof -
  let ?parts = "py_split PIPE (py_strip_chars [PIPE] r)"
  have "squash (py_join (u '' | '') (map py_strip ?parts)) = py_join [PIPE] (map squash (map py_strip ?parts))"
    by (simp only: squash_join squash_sep)
  also have "map squash (map py_strip ?parts) = map squash ?parts"
    by (simp add: squash_strip)
  also have "py_join [PIPE] (map squash ?parts) = squash (py_join [PIPE] ?parts)"
    by (simp only: squash_join squash_pipe)
  also have "\<dots> = squash (py_strip_chars [PIPE] r)"
    by (simp only: join_split)
  finally show ?thesis
    by (simp add: rejoin_def row_cells_def squash_append squash_Cons_pipe)
qed

lemma scan_lines_origin:
  "g \<in> set (scan_lines ls) \<Longrightarrow>
     \<exists>A R B. ls = A @ R @ B \<and> R \<noteq> [] \<and> (\<forall>l\<in>set R. candidate l) \<and>
             (A = [] \<or> \<not> candidate (last A)) \<and> (B = [] \<or> \<not> candidate (hd B)) \<and>
             g = table_rows (map py_strip R)"
proof (induction ls rule: scan_lines.induct)
  case 1
  then show ?case
    by simp
next
  case (2 l ls)
  show ?case
  proof (cases "candidate l")
    case False
    with "2.prems" have "g \<in> set (scan_lines ls)"
      by simp
    from "2.IH"(2) [OF False this] obtain A R B where
      d: "ls = A @ R @ B" "R \<noteq> []" "\<forall>l\<in>set R. candidate l" "A = [] \<or> \<not> candidate (last A)"
        "B = [] \<or> \<not> candidate (hd B)" "g = table_rows (map py_strip R)"
      by blast
    from d(4) False have "l # A = [] \<or> \<not> candidate (last (l # A))"
      by auto
    with d show ?thesis
      by (intro exI [of _ "l # A"] exI [of _ R] exI [of _ B]) simp
  next
    case True
    let ?R = "l # takeWhile candidate ls" and ?B = "dropWhile candidate ls"
    from "2.prems" True have "g \<in> set (grid_of_run ?R) \<or> g \<in> set (scan_lines ?B)"
      by simp
    then show ?thesis
    proof
      assume "g \<in> set (grid_of_run ?R)"
      then have "g = table_rows (map py_strip ?R)"
        by (auto simp: grid_of_run_def Let_def split: if_splits)
      moreover have "\<forall>x\<in>set ?R. candidate x"
        using True by (auto dest: set_takeWhileD)
      moreover have "?B = [] \<or> \<not> candidate (hd ?B)"
        using hd_dropWhile [of candidate ls] by blast
      moreover have "l # ls = [] @ ?R @ ?B"
        by simp
      ultimately show ?thesis
        by (intro exI [of _ "[]"] exI [of _ ?R] exI [of _ ?B]) simp
    next
      assume "g \<in> set (scan_lines ?B)"
      from "2.IH"(1) [OF True this] obtain A R B where
        d: "?B = A @ R @ B" "R \<noteq> []" "\<forall>l\<in>set R. candidate l" "A = [] \<or> \<not> candidate (last A)"
          "B = [] \<or> \<not> candidate (hd B)" "g = table_rows (map py_strip R)"
        by blast
      have "A \<noteq> []"
      proof
        assume "A = []"
        with d(1,2) have "?B \<noteq> []" "hd ?B = hd R"
          by auto
        with d(2,3) hd_dropWhile [of candidate ls] show False
          by auto
      qed
      with d(4) have "(?R @ A) = [] \<or> \<not> candidate (last (?R @ A))"
        by simp
      moreover have "l # ls = (?R @ A) @ R @ B"
        using d(1) by (metis append.assoc append_Cons takeWhile_dropWhile_id)
      ultimately show ?thesis
        using d(2,3,5,6) by (intro exI [of _ "?R @ A"] exI [of _ R] exI [of _ B]) simp
    qed
  qed
qed

text \<open>
  C6, as the code has it: every row of every returned grid is the cell list of a line \<open>l\<close> of
  the maximal run that produced the grid, and the re-joined row equals, up to whitespace, the
  trimmed line with the \<open>|\<close> at its two ends reduced to a single one each; for a line with
  exactly one \<open>|\<close> at each end that is the line itself. The line \<open>|x||\<close> yields the row
  \<open>x\<close>, which re-joins to \<open>|x|\<close>.
\<close>

theorem rejoined_row_matches_line:
  assumes "extract_tables md_text = Inr tables" and "g \<in> set tables" and "row \<in> set g"
  shows "\<exists>A R B l. splitlines md_text = A @ R @ B \<and> R \<noteq> [] \<and> (\<forall>l\<in>set R. candidate l) \<and>
           (A = [] \<or> \<not> candidate (last A)) \<and> (B = [] \<or> \<not> candidate (hd B)) \<and>
           g = table_rows (map py_strip R) \<and> l \<in> set R \<and> row = row_cells (py_strip l) \<and>
           squash (rejoin row) = squash (PIPE # strip_all_pipes (py_strip l) @ [PIPE]) \<and>
           (single_edge_pipes (py_strip l) \<longrightarrow> squash (rejoin row) = squash l)"
proof -
  from assms(1,2) have "g \<in> set (scan_lines (splitlines md_text))"
    by (simp add: extract_tables_eq)
  from scan_lines_origin [OF this] obtain A R B where
    d: "splitlines md_text = A @ R @ B" "R \<noteq> []" "\<forall>l\<in>set R. candidate l"
      "A = [] \<or> \<not> candidate (last A)" "B = [] \<or> \<not> candidate (hd B)"
      "g = table_rows (map py_strip R)"
    by blast
  from assms(3) d(6) obtain l where l: "l \<in> set R" "row = row_cells (py_strip l)"
    by (auto simp: table_rows_def)
  have sq: "squash (rejoin row) = squash (PIPE # strip_all_pipes (py_strip l) @ [PIPE])"
    unfolding l(2) strip_all_pipes_eq by (rule rejoin_row_cells)
  have "single_edge_pipes (py_strip l) \<longrightarrow> squash (rejoin row) = squash l"
  proof
    assume s: "single_edge_pipes (py_strip l)"
    from single_edge_pipes_core [OF s] single_edge_pipes_strip(1) [OF s]
    have "PIPE # strip_all_pipes (py_strip l) @ [PIPE] = py_strip l"
      by (simp add: strip_all_pipes_eq)
    with sq show "squash (rejoin row) = squash l"
      by (simp add: squash_strip)
  qed
  with d l sq show ?thesis
    by blast
qed

theorem rejoined_row_matches_line_witness:
  "extract_tables (u ''| A | B |\<newline>|---|---|\<newline>  | 1 |2|'') = Inr [[[u ''A'', u ''B''], [u ''1'', u ''2'']]] \<and>
   squash (rejoin [u ''1'', u ''2'']) = squash (u ''  | 1 |2|'') \<and>
   (\<exists>A R B l. splitlines (u ''| A | B |\<newline>|---|---|\<newline>  | 1 |2|'') = A @ R @ B \<and> l \<in> set R \<and>
      [u ''1'', u ''2''] = row_cells (py_strip l) \<and>
      squash (rejoin [u ''1'', u ''2'']) = squash (PIPE # strip_all_pipes (py_strip l) @ [PIPE]))"
proof -
  let ?t = "u ''| A | B |\<newline>|---|---|\<newline>  | 1 |2|''"
  have e: "extract_tables ?t = Inr [[[u ''A'', u ''B''], [u ''1'', u ''2'']]]"
    by code_simp
  have q: "squash (rejoin [u ''1'', u ''2'']) = squash (u ''  | 1 |2|'')"
    by code_simp
  from rejoined_row_matches_line [OF e, of "[[u ''A'', u ''B''], [u ''1'', u ''2'']]" "[u ''1'', u ''2'']"]
  have "\<exists>A R B l. splitlines ?t = A @ R @ B \<and> l \<in> set R \<and>
      [u ''1'', u ''2''] = row_cells (py_strip l) \<and>
      squash (rejoin [u ''1'', u ''2'']) = squash (PIPE # strip_all_pipes (py_strip l) @ [PIPE])"
    by simp blast
  with e q show ?thesis
    by simp
qed

theorem rejoined_row_counterexample:
  "splitlines (u ''|x||'') = [u ''|x||''] \<and>
   extract_tables (u ''|x||'') = Inr [[[u ''x'']]] \<and>
   rejoin [u ''x''] = u ''|x|'' \<and>
   squash (rejoin [u ''x'']) \<noteq> squash (u ''|x||'')"
  by code_simp

end
